theory Spec2Isabelle
  imports Complex_Main
begin

section \<open>The dense matrix of \<^verbatim>\<open>types/matrix/matrix.h\<close>\<close>

text \<open>
  A failed \<^verbatim>\<open>assert\<close> aborts the process (\<open>AssertionFailure\<close>: the contract failure
  of the specification). An integer division by zero and a read past the end of a
  \<^verbatim>\<open>std::vector\<close> are undefined behaviour in the source. A floating-point division by zero
  is no failure in the source: it goes on with a NaN or an infinity, which the real numbers
  standing for the scalar type here do not have, so the model stops there and says so.
  All four are results of the model, so that nothing is hidden behind a total HOL function.
\<close>

datatype error = AssertionFailure | DivisionByZero | OutOfBoundsRead | FloatDivisionByZero

text \<open>
  \<^verbatim>\<open>IndexType\<close> is \<^verbatim>\<open>std::size_t\<close>: an unsigned 64-bit integer whose arithmetic wraps.
  Indices are natural numbers here and every product, sum and difference the source computes
  on them is reduced by \<open>size_wrap\<close>.
\<close>

definition size_wrap :: "nat \<Rightarrow> nat" where
  "size_wrap n = n mod 2 ^ 64"

text \<open>The class has two members, \<^verbatim>\<open>rows_\<close> and \<^verbatim>\<open>buffer_\<close> (row-major).\<close>

record 'a Matrix =
  rows_m :: nat
  buffer_m :: "'a list"

definition Rows :: "'a Matrix \<Rightarrow> nat" where
  "Rows m = rows_m m"

definition Columns :: "'a Matrix \<Rightarrow> nat" where
  "Columns m = (if rows_m m = 0 then 0 else length (buffer_m m) div rows_m m)"

text \<open>
  The states a matrix can be in: the default-constructed or moved-from one (no rows, empty
  buffer), or \<open>rows * columns\<close> elements with both counts positive. A \<^verbatim>\<open>std::vector\<close>
  never holds \<open>2^64\<close> elements or more.
\<close>

definition wf_matrix :: "'a Matrix \<Rightarrow> bool" where
  "wf_matrix m \<longleftrightarrow>
     length (buffer_m m) < 2 ^ 64 \<and>
     (if rows_m m = 0 then buffer_m m = []
      else 0 < Columns m \<and> length (buffer_m m) = rows_m m * Columns m)"

text \<open>The constructor from a nested initializer list, with its three assertions.\<close>

definition Matrix_of_rows :: "'a list list \<Rightarrow> error + 'a Matrix" where
  "Matrix_of_rows list =
     (if \<not> 0 < length list then Inl AssertionFailure
      else if \<not> 0 < length (hd list) then Inl AssertionFailure
      else if \<not> list_all (\<lambda>sublist. length sublist = length (hd list)) list then Inl AssertionFailure
      else Inr \<lparr>rows_m = length list, buffer_m = concat list\<rparr>)"

text \<open>\<^verbatim>\<open>operator==\<close> (lines 159-161) and \<^verbatim>\<open>operator!=\<close>.\<close>

definition operator_eq :: "'a Matrix \<Rightarrow> 'a Matrix \<Rightarrow> bool" where
  "operator_eq lhs rhs \<longleftrightarrow> buffer_m lhs = buffer_m rhs"

definition operator_neq :: "'a Matrix \<Rightarrow> 'a Matrix \<Rightarrow> bool" where
  "operator_neq lhs rhs \<longleftrightarrow> \<not> operator_eq lhs rhs"

text \<open>
  \<^verbatim>\<open>operator()\<close> (lines 169-179): the flat index \<^verbatim>\<open>Columns() * row_idx + col_idx\<close> is
  computed in \<^verbatim>\<open>size_t\<close>, asserted to be inside the buffer, and used to read or to write.
\<close>

definition flat_index :: "'a Matrix \<Rightarrow> nat \<Rightarrow> nat \<Rightarrow> nat" where
  "flat_index m row_idx col_idx = size_wrap (Columns m * row_idx + col_idx)"

definition element_at :: "'a Matrix \<Rightarrow> nat \<Rightarrow> nat \<Rightarrow> error + 'a" where
  "element_at m row_idx col_idx =
     (if flat_index m row_idx col_idx < length (buffer_m m)
      then Inr (buffer_m m ! flat_index m row_idx col_idx)
      else Inl AssertionFailure)"

definition element_set :: "'a Matrix \<Rightarrow> nat \<Rightarrow> nat \<Rightarrow> 'a \<Rightarrow> error + 'a Matrix" where
  "element_set m row_idx col_idx v =
     (if flat_index m row_idx col_idx < length (buffer_m m)
      then Inr (m\<lparr>buffer_m := (buffer_m m)[flat_index m row_idx col_idx := v]\<rparr>)
      else Inl AssertionFailure)"

text \<open>
  \<^verbatim>\<open>ApplyToEach(FunctionIndexes)\<close> (lines 193-197). The callback receives a reference to
  the element and two indices; it may write the element and may change whatever it has
  captured, so it is a function from the element, the indices and a captured state \<open>'s\<close>
  to the new element and the new state.
\<close>

function ApplyToEach_loop ::
  "('a \<Rightarrow> nat \<Rightarrow> nat \<Rightarrow> 's \<Rightarrow> 'a \<times> 's) \<Rightarrow> nat \<Rightarrow> nat \<Rightarrow> 'a list \<Rightarrow> 's \<Rightarrow> error + ('a list \<times> 's)"
where
  "ApplyToEach_loop func r i buf s =
     (if i < length buf then
        (if r = 0 then Inl DivisionByZero
         else case func (buf ! i) (i div r) (i mod r) s of
                (v, s') \<Rightarrow> ApplyToEach_loop func r (i + 1) (buf[i := v]) s')
      else Inr (buf, s))"
  by pat_completeness auto
termination
  by (relation "measure (\<lambda>(func, r, i, buf, s). length buf - i)") auto

declare ApplyToEach_loop.simps [simp del]

definition ApplyToEach_indexes ::
  "('a \<Rightarrow> nat \<Rightarrow> nat \<Rightarrow> 's \<Rightarrow> 'a \<times> 's) \<Rightarrow> 'a Matrix \<Rightarrow> 's \<Rightarrow> error + ('a Matrix \<times> 's)"
where
  "ApplyToEach_indexes func m s =
     (case ApplyToEach_loop func (Rows m) 0 (buffer_m m) s of
        Inl e \<Rightarrow> Inl e
      | Inr (buf, s') \<Rightarrow> Inr (m\<lparr>buffer_m := buf\<rparr>, s'))"

text \<open>
  \<^verbatim>\<open>Transpose\<close> (lines 236-256). \<open>next_idx\<close> is the conditional expression assigned to
  \<^verbatim>\<open>swap_idx\<close>, \<open>swap_at\<close> is \<^verbatim>\<open>std::swap\<close> on two places of the buffer. The
  \<^verbatim>\<open>do ... while\<close> loop has no bound in the source, so both loops are partial functions:
  \<open>None\<close> means that the loop never ends. Inside the loops every index is below the
  buffer's length and \<^verbatim>\<open>last_idx\<close> is positive (the outer loop needs two elements to
  run), so no read is out of range and no remainder is taken by zero.
\<close>

definition next_idx :: "nat \<Rightarrow> nat \<Rightarrow> nat \<Rightarrow> nat" where
  "next_idx r last_idx swap_idx =
     (if swap_idx = last_idx then last_idx else size_wrap (r * swap_idx) mod last_idx)"

definition swap_at :: "'a list \<Rightarrow> nat \<Rightarrow> nat \<Rightarrow> 'a list" where
  "swap_at xs a b = xs[a := xs ! b, b := xs ! a]"

partial_function (option) Transpose_cycle ::
  "nat \<Rightarrow> nat \<Rightarrow> nat \<Rightarrow> nat \<Rightarrow> 'a list \<Rightarrow> bool list \<Rightarrow> ('a list \<times> bool list) option"
where
  "Transpose_cycle r last_idx i swap_idx buf visited =
     (let swap_idx' = next_idx r last_idx swap_idx;
          buf' = swap_at buf swap_idx' i;
          visited' = visited[swap_idx' := True]
      in if swap_idx' \<noteq> i then Transpose_cycle r last_idx i swap_idx' buf' visited'
         else Some (buf', visited'))"

declare Transpose_cycle.simps [code]

partial_function (option) Transpose_loop ::
  "nat \<Rightarrow> nat \<Rightarrow> nat \<Rightarrow> 'a list \<Rightarrow> bool list \<Rightarrow> 'a list option"
where
  "Transpose_loop r last_idx i buf visited =
     (if i < length buf then
        (if visited ! i then Transpose_loop r last_idx (i + 1) buf visited
         else case Transpose_cycle r last_idx i i buf visited of
                None \<Rightarrow> None
              | Some st \<Rightarrow> Transpose_loop r last_idx (i + 1) (fst st) (snd st))
      else Some buf)"

declare Transpose_loop.simps [code]

definition Transpose :: "'a Matrix \<Rightarrow> 'a Matrix option" where
  "Transpose m =
     (let n = length (buffer_m m);
          last_idx = size_wrap (n + 2 ^ 64 - 1)
      in case Transpose_loop (Rows m) last_idx 1 (buffer_m m) (replicate n False) of
           None \<Rightarrow> None
         | Some buf \<Rightarrow> Some \<lparr>rows_m = Columns \<lparr>rows_m = rows_m m, buffer_m = buf\<rparr>,
                             buffer_m = buf\<rparr>)"

section \<open>Constructors and arithmetic of \<^verbatim>\<open>matrix.h\<close>\<close>

text \<open>
  Sequencing of steps that can fail: the first failure ends the computation, as the abort
  does. A counted \<^verbatim>\<open>for\<close> loop whose bound does not change while it runs is a
  recursion over the list of its index values.
\<close>

definition and_then :: "error + 'a \<Rightarrow> ('a \<Rightarrow> error + 'b) \<Rightarrow> error + 'b" where
  "and_then r f = (case r of Inl e \<Rightarrow> Inl e | Inr x \<Rightarrow> f x)"

primrec for_loop :: "nat list \<Rightarrow> (nat \<Rightarrow> 's \<Rightarrow> error + 's) \<Rightarrow> 's \<Rightarrow> error + 's" where
  "for_loop [] body st = Inr st"
| "for_loop (i # rest) body st = and_then (body i st) (for_loop rest body)"

text \<open>\<^verbatim>\<open>Matrix(IndexType sq_size)\<close> (lines 22-26).\<close>

definition Matrix_square :: "nat \<Rightarrow> error + 'a::zero Matrix" where
  "Matrix_square sq_size =
     (let m = \<lparr>rows_m = sq_size, buffer_m = replicate (size_wrap (sq_size * sq_size)) 0\<rparr>
      in if \<not> 0 < Rows m then Inl AssertionFailure else Inr m)"

text \<open>\<^verbatim>\<open>Matrix(IndexType row_cnt, IndexType col_cnt, T value)\<close> (lines 28-34).\<close>

definition Matrix_fill :: "nat \<Rightarrow> nat \<Rightarrow> 'a \<Rightarrow> error + 'a Matrix" where
  "Matrix_fill row_cnt col_cnt v =
     (let m = \<lparr>rows_m = row_cnt, buffer_m = replicate (size_wrap (row_cnt * col_cnt)) v\<rparr>
      in if \<not> 0 < Rows m then Inl AssertionFailure
         else if \<not> 0 < Columns m then Inl AssertionFailure
         else Inr m)"

text \<open>
  \<^verbatim>\<open>Matrix(const Data &diag)\<close> (lines 36-46) and \<^verbatim>\<open>Identity\<close> (lines 266-268), which
  passes \<^verbatim>\<open>size\<close> copies of \<^verbatim>\<open>default_value\<close> to it.
\<close>

definition Matrix_diag :: "'a::zero list \<Rightarrow> error + 'a Matrix" where
  "Matrix_diag diag =
     (let m = \<lparr>rows_m = length diag,
               buffer_m = replicate (size_wrap (length diag * length diag)) 0\<rparr>
      in if \<not> 0 < Rows m then Inl AssertionFailure
         else for_loop [0..<length diag] (\<lambda>idx m. element_set m idx idx (diag ! idx)) m)"

definition Identity :: "nat \<Rightarrow> 'a::zero \<Rightarrow> error + 'a Matrix" where
  "Identity size' default_value = Matrix_diag (replicate size' default_value)"

text \<open>
  \<^verbatim>\<open>operator+=\<close> and \<^verbatim>\<open>operator-=\<close> (lines 92-103, 115-126): two assertions, then the
  loop over the left buffer, which reads the right buffer at the same index.
\<close>

definition operator_plus_assign :: "'a::plus Matrix \<Rightarrow> 'a Matrix \<Rightarrow> error + 'a Matrix" where
  "operator_plus_assign lhs rhs =
     (if Rows lhs \<noteq> Rows rhs then Inl AssertionFailure
      else if Columns lhs \<noteq> Columns rhs then Inl AssertionFailure
      else for_loop [0..<length (buffer_m lhs)]
             (\<lambda>i m. if i < length (buffer_m rhs)
                    then Inr (m\<lparr>buffer_m := (buffer_m m)[i := buffer_m m ! i + buffer_m rhs ! i]\<rparr>)
                    else Inl OutOfBoundsRead) lhs)"

definition operator_minus_assign :: "'a::minus Matrix \<Rightarrow> 'a Matrix \<Rightarrow> error + 'a Matrix" where
  "operator_minus_assign lhs rhs =
     (if Rows lhs \<noteq> Rows rhs then Inl AssertionFailure
      else if Columns lhs \<noteq> Columns rhs then Inl AssertionFailure
      else for_loop [0..<length (buffer_m lhs)]
             (\<lambda>i m. if i < length (buffer_m rhs)
                    then Inr (m\<lparr>buffer_m := (buffer_m m)[i := buffer_m m ! i - buffer_m rhs ! i]\<rparr>)
                    else Inl OutOfBoundsRead) lhs)"

text \<open>
  \<^verbatim>\<open>operator+\<close> (lines 82-90) asserts equal row counts and compares the columns of
  \<^verbatim>\<open>rhs\<close> with themselves; \<^verbatim>\<open>operator-\<close> (lines 105-113) asserts both. Each copies
  \<^verbatim>\<open>lhs\<close> and applies the compound operator.
\<close>

definition operator_plus :: "'a::plus Matrix \<Rightarrow> 'a Matrix \<Rightarrow> error + 'a Matrix" where
  "operator_plus lhs rhs =
     (if Rows lhs \<noteq> Rows rhs then Inl AssertionFailure
      else if Columns rhs \<noteq> Columns rhs then Inl AssertionFailure
      else operator_plus_assign lhs rhs)"

definition operator_minus :: "'a::minus Matrix \<Rightarrow> 'a Matrix \<Rightarrow> error + 'a Matrix" where
  "operator_minus lhs rhs =
     (if Rows lhs \<noteq> Rows rhs then Inl AssertionFailure
      else if Columns lhs \<noteq> Columns rhs then Inl AssertionFailure
      else operator_minus_assign lhs rhs)"

text \<open>
  \<^verbatim>\<open>operator*\<close> (lines 128-145), the triple loop with its asserted element accesses;
  \<^verbatim>\<open>operator*=\<close> (line 147) assigns its result.
\<close>

definition operator_mul :: "'a::{zero,plus,times} Matrix \<Rightarrow> 'a Matrix \<Rightarrow> error + 'a Matrix" where
  "operator_mul lhs rhs =
     (if Columns lhs \<noteq> Rows rhs then Inl AssertionFailure
      else and_then (Matrix_fill (Rows lhs) (Columns rhs) 0) (\<lambda>result.
        for_loop [0..<Rows lhs] (\<lambda>i result.
          for_loop [0..<Columns rhs] (\<lambda>j result.
            and_then
              (for_loop [0..<Columns lhs] (\<lambda>k sum'.
                 and_then (element_at lhs i k) (\<lambda>a.
                 and_then (element_at rhs k j) (\<lambda>b. Inr (sum' + a * b)))) 0)
              (\<lambda>sum'. element_set result i j sum')) result) result))"

definition operator_mul_assign :: "'a::{zero,plus,times} Matrix \<Rightarrow> 'a Matrix \<Rightarrow> error + 'a Matrix" where
  "operator_mul_assign lhs rhs = operator_mul lhs rhs"

section \<open>The algorithms of \<^verbatim>\<open>algorithms/qr_algorithm.h\<close>\<close>

text \<open>
  The scalar type is a real floating-point type; the real numbers stand for it where the
  code takes absolute values, roots and quotients (complex scalars are not modelled). The
  header uses
  the matrix through \<^verbatim>\<open>Rows\<close>, \<^verbatim>\<open>Columns\<close>, \<^verbatim>\<open>operator()\<close>, the arithmetic operators
  and \<^verbatim>\<open>Identity\<close>, which are those above. What it takes from headers that are not part
  of the sources at hand (\<^verbatim>\<open>utils::Sign\<close>, \<^verbatim>\<open>utils::IsHermitian\<close>, \<^verbatim>\<open>HouseholderQR\<close>,
  \<^verbatim>\<open>GivensLeftRotation\<close>, \<^verbatim>\<open>GivensRightRotation\<close>, \<^verbatim>\<open>GetSubmatrix\<close>,
  \<^verbatim>\<open>RoundZeroes\<close>) is a parameter of the functions below.
\<close>

text \<open>
  \<^verbatim>\<open>GetWilkinsonShift\<close> (lines 9-21). Every \<^verbatim>\<open>matrix(r, c)\<close> is an asserted access; the
  same element read twice is bound once.
\<close>

definition GetWilkinsonShift :: "(real \<Rightarrow> real) \<Rightarrow> real Matrix \<Rightarrow> error + real" where
  "GetWilkinsonShift Sign matrix =
     (if Rows matrix \<noteq> 2 then Inl AssertionFailure
      else if Columns matrix \<noteq> 2 then Inl AssertionFailure
      else
        and_then (element_at matrix 0 1) (\<lambda>m01.
        and_then (element_at matrix 1 0) (\<lambda>m10.
        if m01 \<noteq> m10 then Inl AssertionFailure
        else
          and_then (element_at matrix 0 0) (\<lambda>m00.
          and_then (element_at matrix 1 1) (\<lambda>m11.
          let d = (m00 - m11) / 2;
              coefficient = \<bar>d\<bar> + sqrt (d * d + m01 * m01)
          in if coefficient = 0 then Inl FloatDivisionByZero
             else Inr (m11 - (Sign d * m01 * m01) / coefficient))))))"

text \<open>
  Modelled from the spec: \<^verbatim>\<open>Copy\<close> is not a member of the class in \<^verbatim>\<open>matrix.h\<close>; the
  specification says that the running matrix is "initialized to a copy of the input".
\<close>

definition Copy :: "'a Matrix \<Rightarrow> 'a Matrix" where
  "Copy m = m"

record 'a SpectralPair =
  pair_D :: "'a Matrix"
  pair_Q :: "'a Matrix"

text \<open>
  \<^verbatim>\<open>GetRealSpecDecomposition\<close> (lines 29-52). \<open>spec_iteration\<close> is the body of the
  \<^verbatim>\<open>for\<close> loop (lines 44-48), \<open>spec_loop\<close> the loop with its counter. The arithmetic
  of the scalar type is used through its operations only, so the scalar type is any type
  that has them.
\<close>

definition spec_iteration ::
  "('a Matrix \<Rightarrow> error + 'a Matrix \<times> 'a Matrix) \<Rightarrow> ('a Matrix \<Rightarrow> 'a Matrix) \<Rightarrow> 'a Matrix \<Rightarrow>
   'a::{zero,plus,minus,times} Matrix \<times> 'a Matrix \<Rightarrow> error + 'a Matrix \<times> 'a Matrix"
where
  "spec_iteration HouseholderQR RoundZeroes shift_I st =
     (case st of (D, transform) \<Rightarrow>
        and_then (operator_minus D shift_I) (\<lambda>A.
        and_then (HouseholderQR A) (\<lambda>(Q, R).
        and_then (operator_mul R Q) (\<lambda>RQ.
        and_then (operator_plus RQ shift_I) (\<lambda>D.
        and_then (operator_mul_assign transform Q) (\<lambda>transform.
        Inr (RoundZeroes D, transform)))))))"

function spec_loop ::
  "('a Matrix \<Rightarrow> error + 'a Matrix \<times> 'a Matrix) \<Rightarrow> ('a Matrix \<Rightarrow> 'a Matrix) \<Rightarrow> 'a Matrix \<Rightarrow>
   nat \<Rightarrow> nat \<Rightarrow> 'a::{zero,plus,minus,times} Matrix \<times> 'a Matrix \<Rightarrow> error + 'a Matrix \<times> 'a Matrix"
where
  "spec_loop HouseholderQR RoundZeroes shift_I i it_cnt st =
     (if i < it_cnt then
        (case spec_iteration HouseholderQR RoundZeroes shift_I st of
           Inl e \<Rightarrow> Inl e
         | Inr st' \<Rightarrow> spec_loop HouseholderQR RoundZeroes shift_I (i + 1) it_cnt st')
      else Inr st)"
  by pat_completeness auto
termination
  by (relation "measure (\<lambda>(h, rz, shift_I, i, it_cnt, st). it_cnt - i)") auto

declare spec_loop.simps [simp del]

definition GetRealSpecDecomposition ::
  "('a Matrix \<Rightarrow> bool) \<Rightarrow> ('a Matrix \<Rightarrow> error + 'a Matrix \<times> 'a Matrix) \<Rightarrow>
   ('a Matrix \<Rightarrow> 'a Matrix) \<Rightarrow> 'a::{zero,one,plus,minus,times} Matrix \<Rightarrow> 'a \<Rightarrow> nat \<Rightarrow>
   error + 'a SpectralPair"
where
  "GetRealSpecDecomposition IsHermitian HouseholderQR RoundZeroes matrix shift it_cnt =
     (if \<not> IsHermitian matrix then Inl AssertionFailure
      else
        let D = Copy matrix in
        and_then (Identity (Rows D) shift) (\<lambda>shift_I.
        and_then (Identity (Rows D) 1) (\<lambda>transform.
        and_then (spec_loop HouseholderQR RoundZeroes shift_I 0 it_cnt (D, transform)) (\<lambda>st.
        Inr \<lparr>pair_D = fst st, pair_Q = snd st\<rparr>))))"

record 'a DiagBasisQR =
  basis_U :: "'a Matrix"
  basis_D :: "'a Matrix"
  basis_VT :: "'a Matrix"

text \<open>
  \<^verbatim>\<open>BidiagonalAlgorithmQR\<close> (lines 61-105). \<open>sweep_step\<close> is the body of the inner
  \<^verbatim>\<open>for\<close> loop (lines 87-98) on the state \<open>(U, S, VT)\<close>; \<open>sweep\<close> is the body of
  the \<^verbatim>\<open>while\<close> loop (lines 75-101); \<^verbatim>\<open>r - 2\<close>, \<^verbatim>\<open>c - 2\<close> are computed in
  \<^verbatim>\<open>IndexType\<close>.
\<close>

type_synonym rotation = "real Matrix \<Rightarrow> nat \<Rightarrow> nat \<Rightarrow> real \<Rightarrow> real \<Rightarrow> error + real Matrix"

definition sweep_step ::
  "rotation \<Rightarrow> rotation \<Rightarrow> real \<Rightarrow> nat \<Rightarrow> real Matrix \<times> real Matrix \<times> real Matrix \<Rightarrow>
   error + real Matrix \<times> real Matrix \<times> real Matrix"
where
  "sweep_step GivensLeftRotation GivensRightRotation shift i st =
     (case st of (U, S, VT) \<Rightarrow>
        and_then
          (if i + 1 < Columns S then
             and_then (if 0 < i then element_at S (i - 1) i
                       else and_then (element_at S 0 0) (\<lambda>s00. Inr (s00 * s00 - shift))) (\<lambda>f_elem.
             and_then (if 0 < i then element_at S (i - 1) (i + 1)
                       else and_then (element_at S 0 1) (\<lambda>s01.
                            and_then (element_at S 0 0) (\<lambda>s00. Inr (s01 * s00)))) (\<lambda>s_elem.
             and_then (GivensLeftRotation VT i (i + 1) f_elem s_elem) (\<lambda>VT.
             and_then (GivensRightRotation S i (i + 1) f_elem s_elem) (\<lambda>S.
             Inr (S, VT)))))
           else Inr (S, VT))
          (\<lambda>(S, VT).
             if i + 1 < Rows S then
               and_then (element_at S i i) (\<lambda>sii.
               and_then (element_at S (i + 1) i) (\<lambda>sji.
               and_then (GivensRightRotation U i (i + 1) sii sji) (\<lambda>U.
               and_then (GivensLeftRotation S i (i + 1) sii sji) (\<lambda>S.
               Inr (U, S, VT)))))
             else Inr (U, S, VT)))"

definition sweep ::
  "(real \<Rightarrow> real) \<Rightarrow> (real Matrix \<Rightarrow> nat \<times> nat \<Rightarrow> nat \<times> nat \<Rightarrow> error + real Matrix) \<Rightarrow>
   (real Matrix \<Rightarrow> real Matrix) \<Rightarrow> rotation \<Rightarrow> rotation \<Rightarrow> nat \<Rightarrow> nat \<Rightarrow> nat \<Rightarrow>
   real Matrix \<times> real Matrix \<times> real Matrix \<Rightarrow> error + real Matrix \<times> real Matrix \<times> real Matrix"
where
  "sweep Sign GetSubmatrix RoundZeroes GivensLeftRotation GivensRightRotation r c size' st =
     (case st of (U, S, VT) \<Rightarrow>
        and_then (GetSubmatrix S (size_wrap (r + 2 ^ 64 - 2), r) (size_wrap (c + 2 ^ 64 - 2), c)) (\<lambda>minor.
        and_then (Matrix_square 2) (\<lambda>BB.
        and_then (element_at minor 0 0) (\<lambda>m00.
        and_then (if 3 \<le> r
                  then and_then (element_at S (r - 3) (size_wrap (c + 2 ^ 64 - 2))) (\<lambda>x. Inr (x * x))
                  else Inr 0) (\<lambda>above.
        and_then (element_set BB 0 0 (m00 * m00 + above)) (\<lambda>BB.
        and_then (element_at minor 0 1) (\<lambda>m01.
        and_then (element_set BB 1 0 (m00 * m01)) (\<lambda>BB.
        and_then (element_at BB 1 0) (\<lambda>b10.
        and_then (element_set BB 0 1 b10) (\<lambda>BB.
        and_then (element_at minor 1 1) (\<lambda>m11.
        and_then (element_set BB 1 1 (m01 * m01 + m11 * m11)) (\<lambda>BB.
        and_then (GetWilkinsonShift Sign BB) (\<lambda>shift.
        and_then (for_loop [0..<size']
                    (sweep_step GivensLeftRotation GivensRightRotation shift) (U, S, VT)) (\<lambda>st.
        case st of (U, S, VT) \<Rightarrow> Inr (U, RoundZeroes S, VT)))))))))))))))"

definition BidiagonalAlgorithmQR ::
  "(real \<Rightarrow> real) \<Rightarrow> (real Matrix \<Rightarrow> nat \<times> nat \<Rightarrow> nat \<times> nat \<Rightarrow> error + real Matrix) \<Rightarrow>
   (real Matrix \<Rightarrow> real Matrix) \<Rightarrow> rotation \<Rightarrow> rotation \<Rightarrow> real Matrix \<Rightarrow> nat \<Rightarrow>
   error + real DiagBasisQR"
where
  "BidiagonalAlgorithmQR Sign GetSubmatrix RoundZeroes GivensLeftRotation GivensRightRotation B it_cnt =
     (let S = B; r = Rows S; c = Columns S; size' = min r c in
      and_then (Identity r 1) (\<lambda>U.
      and_then (Identity c 1) (\<lambda>VT.
      and_then (for_loop [0..<it_cnt]
                  (\<lambda>n. sweep Sign GetSubmatrix RoundZeroes GivensLeftRotation GivensRightRotation
                         r c size') (U, S, VT)) (\<lambda>st.
      case st of (U, S, VT) \<Rightarrow> Inr \<lparr>basis_U = U, basis_D = S, basis_VT = VT\<rparr>))))"

text \<open>
  Modelled from the spec: the rotation "derived from \<open>(a, b)\<close>" that the Givens functions
  of \<^verbatim>\<open>givens.h\<close> (not among the sources) apply. It has cosine \<open>a / r\<close> and sine
  \<open>b / r\<close> with \<open>r = sqrt (a\<^sup>2 + b\<^sup>2)\<close>, and is the identity when \<open>r = 0\<close>; it sends the
  pair \<open>(a, b)\<close> to \<open>(r, 0)\<close>, "zeroing the target sub-diagonal/super-diagonal element".
\<close>

definition givens_coefficients :: "real \<Rightarrow> real \<Rightarrow> real \<times> real" where
  "givens_coefficients a b =
     (let r = sqrt (a * a + b * b) in if r = 0 then (1, 0) else (a / r, b / r))"

text \<open>
  Modelled from the spec: \<^verbatim>\<open>GivensLeftRotation\<close> of \<^verbatim>\<open>givens.h\<close>, which is not among the
  sources. The specification says that it "appl[ies], in place, the 2x2 rotation derived from
  \<open>(a, b)\<close> to rows (left) \<open>i\<close> and \<open>j\<close> of \<open>M\<close>; contract: \<open>i \<noteq> j\<close>, both indices in range".
\<close>

definition GivensLeftRotation_spec :: rotation where
  "GivensLeftRotation_spec M i j a b =
     (if i = j \<or> \<not> i < Rows M \<or> \<not> j < Rows M then Inl AssertionFailure
      else case givens_coefficients a b of (cs, sn) \<Rightarrow>
        for_loop [0..<Columns M] (\<lambda>k M.
          and_then (element_at M i k) (\<lambda>x.
          and_then (element_at M j k) (\<lambda>y.
          and_then (element_set M i k (cs * x + sn * y)) (\<lambda>M.
          element_set M j k (cs * y - sn * x))))) M)"

text \<open>
  Modelled from the spec: \<^verbatim>\<open>GivensRightRotation\<close> of \<^verbatim>\<open>givens.h\<close>, which is not among the
  sources. The specification says that it "appl[ies], in place, the 2x2 rotation derived from
  \<open>(a, b)\<close> to columns (right) \<open>i\<close> and \<open>j\<close> of \<open>M\<close>; contract: \<open>i \<noteq> j\<close>, both indices in
  range".
\<close>

definition GivensRightRotation_spec :: rotation where
  "GivensRightRotation_spec M i j a b =
     (if i = j \<or> \<not> i < Columns M \<or> \<not> j < Columns M then Inl AssertionFailure
      else case givens_coefficients a b of (cs, sn) \<Rightarrow>
        for_loop [0..<Rows M] (\<lambda>k M.
          and_then (element_at M k i) (\<lambda>x.
          and_then (element_at M k j) (\<lambda>y.
          and_then (element_set M k i (cs * x + sn * y)) (\<lambda>M.
          element_set M k j (cs * y - sn * x))))) M)"

text \<open>
  Modelled from the spec: \<^verbatim>\<open>GetSubmatrix\<close> is not a member of the class in \<^verbatim>\<open>matrix.h\<close>;
  the specification uses it to "extract the trailing 2x2 block of \<open>S\<close> over rows
  \<open>[r-2, r)\<close> and columns \<open>[c-2, c)\<close>": the rows and the columns of two half-open ranges.
\<close>

definition GetSubmatrix_spec :: "real Matrix \<Rightarrow> nat \<times> nat \<Rightarrow> nat \<times> nat \<Rightarrow> error + real Matrix" where
  "GetSubmatrix_spec M row_range col_range =
     (case (row_range, col_range) of ((r0, r1), (c0, c1)) \<Rightarrow>
        if \<not> (r0 < r1 \<and> r1 \<le> Rows M \<and> c0 < c1 \<and> c1 \<le> Columns M) then Inl AssertionFailure
        else and_then (Matrix_fill (r1 - r0) (c1 - c0) 0) (\<lambda>res.
          for_loop [0..<r1 - r0] (\<lambda>i res.
            for_loop [0..<c1 - c0] (\<lambda>j res.
              and_then (element_at M (r0 + i) (c0 + j)) (\<lambda>x. element_set res i j x)) res) res))"

text \<open>
  Modelled from the spec: \<^verbatim>\<open>RoundZeroes\<close> is not a member of the class in \<^verbatim>\<open>matrix.h\<close>;
  the specification says that it "zero[es] out matrix entries whose magnitude falls below a
  small numerical-noise threshold". The threshold is a parameter.
\<close>

definition RoundZeroes_spec :: "real \<Rightarrow> real Matrix \<Rightarrow> real Matrix" where
  "RoundZeroes_spec eps M = M\<lparr>buffer_m := map (\<lambda>x. if \<bar>x\<bar> < eps then 0 else x) (buffer_m M)\<rparr>"

text \<open>
  Modelled from the spec: the body of the inner loop as the specification words it, for
  comparison with \<open>sweep_step\<close>, which is the body the source has: "apply a right (column)
  Givens rotation to \<open>(VT, S)\<close> using \<open>(f, s)\<close>" and "apply a left (row) Givens rotation to
  \<open>(U, S)\<close> using the current \<open>(S[i,i], S[i+1,i])\<close> pair".
\<close>

definition sweep_step_as_worded ::
  "rotation \<Rightarrow> rotation \<Rightarrow> real \<Rightarrow> nat \<Rightarrow> real Matrix \<times> real Matrix \<times> real Matrix \<Rightarrow>
   error + real Matrix \<times> real Matrix \<times> real Matrix"
where
  "sweep_step_as_worded GivensLeftRotation GivensRightRotation shift i st =
     (case st of (U, S, VT) \<Rightarrow>
        and_then
          (if i + 1 < Columns S then
             and_then (if 0 < i then element_at S (i - 1) i
                       else and_then (element_at S 0 0) (\<lambda>s00. Inr (s00 * s00 - shift))) (\<lambda>f_elem.
             and_then (if 0 < i then element_at S (i - 1) (i + 1)
                       else and_then (element_at S 0 1) (\<lambda>s01.
                            and_then (element_at S 0 0) (\<lambda>s00. Inr (s01 * s00)))) (\<lambda>s_elem.
             and_then (GivensRightRotation VT i (i + 1) f_elem s_elem) (\<lambda>VT.
             and_then (GivensRightRotation S i (i + 1) f_elem s_elem) (\<lambda>S.
             Inr (S, VT)))))
           else Inr (S, VT))
          (\<lambda>(S, VT).
             if i + 1 < Rows S then
               and_then (element_at S i i) (\<lambda>sii.
               and_then (element_at S (i + 1) i) (\<lambda>sji.
               and_then (GivensLeftRotation U i (i + 1) sii sji) (\<lambda>U.
               and_then (GivensLeftRotation S i (i + 1) sii sji) (\<lambda>S.
               Inr (U, S, VT)))))
             else Inr (U, S, VT)))"

section \<open>Auxiliary notions of the proofs\<close>

text \<open>The indices marked in \<^verbatim>\<open>visited\<close>, and the place an element of the transposed
  buffer comes from (the inverse of \<open>next_idx\<close>).\<close>

definition visited_set :: "bool list \<Rightarrow> nat set" where
  "visited_set visited = {x. x < length visited \<and> visited ! x}"

definition source_idx :: "nat \<Rightarrow> nat \<Rightarrow> nat \<Rightarrow> nat" where
  "source_idx c last_idx x = (if x = last_idx then last_idx else (c * x) mod last_idx)"

section \<open>Basic facts\<close>

lemma size_wrap_id: "n < 2 ^ 64 \<Longrightarrow> size_wrap n = n"
  by (simp add: size_wrap_def)

lemma and_then_Inr [simp]: "and_then (Inr x) f = f x"
  by (simp add: and_then_def)

lemma and_then_Inl [simp]: "and_then (Inl e) f = Inl e"
  by (simp add: and_then_def)

lemma element_at_2x2:
  "element_at \<lparr>rows_m = 2, buffer_m = [a, b, c, d]\<rparr> 0 0 = Inr a"
  "element_at \<lparr>rows_m = 2, buffer_m = [a, b, c, d]\<rparr> 0 (Suc 0) = Inr b"
  "element_at \<lparr>rows_m = 2, buffer_m = [a, b, c, d]\<rparr> (Suc 0) 0 = Inr c"
  "element_at \<lparr>rows_m = 2, buffer_m = [a, b, c, d]\<rparr> (Suc 0) (Suc 0) = Inr d"
  by (simp_all add: element_at_def flat_index_def Columns_def size_wrap_def)

lemma Rows_Columns_2x2:
  "Rows \<lparr>rows_m = 2, buffer_m = [a, b, c, d]\<rparr> = 2"
  "Columns \<lparr>rows_m = 2, buffer_m = [a, b, c, d]\<rparr> = 2"
  by (simp_all add: Rows_def Columns_def)

lemma and_then_assoc: "and_then (and_then r f) g = and_then r (\<lambda>x. and_then (f x) g)"
  by (cases r) simp_all

lemma and_then_eq_Inr: "and_then r f = Inr y \<longleftrightarrow> (\<exists>x. r = Inr x \<and> f x = Inr y)"
  by (cases r) simp_all

lemma for_loop_append:
  "for_loop (xs @ ys) body st = and_then (for_loop xs body st) (for_loop ys body)"
proof (induction xs arbitrary: st)
  case Nil
  then show ?case by simp
next
  case (Cons a xs)
  have "for_loop (xs @ ys) body = (\<lambda>x. and_then (for_loop xs body x) (for_loop ys body))"
    by (rule ext) (rule Cons.IH)
  then show ?case by (simp add: and_then_assoc)
qed

text \<open>The operations on 2x2 matrices, evaluated once for all entries.\<close>

lemma upt_0_2: "[0..<2] = [0, Suc 0]"
  by (simp add: numeral_2_eq_2)

lemma upt_0_4: "[0..<4] = [0, Suc 0, 2, 3]"
  by (simp add: eval_nat_numeral)

lemma element_set_2x2:
  "element_set \<lparr>rows_m = 2, buffer_m = [a, b, c, d]\<rparr> 0 0 v = Inr \<lparr>rows_m = 2, buffer_m = [v, b, c, d]\<rparr>"
  "element_set \<lparr>rows_m = 2, buffer_m = [a, b, c, d]\<rparr> 0 (Suc 0) v = Inr \<lparr>rows_m = 2, buffer_m = [a, v, c, d]\<rparr>"
  "element_set \<lparr>rows_m = 2, buffer_m = [a, b, c, d]\<rparr> (Suc 0) 0 v = Inr \<lparr>rows_m = 2, buffer_m = [a, b, v, d]\<rparr>"
  "element_set \<lparr>rows_m = 2, buffer_m = [a, b, c, d]\<rparr> (Suc 0) (Suc 0) v = Inr \<lparr>rows_m = 2, buffer_m = [a, b, c, v]\<rparr>"
  by (simp_all add: element_set_def flat_index_def Columns_def size_wrap_def)

lemma replicate_4: "replicate 4 x = [x, x, x, x]"
  by (simp add: eval_nat_numeral)

lemma Matrix_square_2: "Matrix_square 2 = Inr \<lparr>rows_m = 2, buffer_m = [0, 0, 0, 0]\<rparr>"
  by (simp add: Matrix_square_def size_wrap_def Rows_def replicate_4)

lemma Matrix_fill_2_2: "Matrix_fill 2 2 v = Inr \<lparr>rows_m = 2, buffer_m = [v, v, v, v]\<rparr>"
  by (simp add: Matrix_fill_def size_wrap_def Rows_def Columns_def replicate_4)

lemma replicate_2: "replicate 2 x = [x, x]"
  by (simp add: numeral_2_eq_2)

lemma Identity_2: "Identity 2 v = Inr \<lparr>rows_m = 2, buffer_m = [v, 0, 0, v]\<rparr>"
  by (simp add: Identity_def Matrix_diag_def size_wrap_def Rows_def replicate_4 replicate_2
      element_set_2x2 numeral_2_eq_2[symmetric] upt_0_2)

lemma operator_minus_2x2:
  "operator_minus \<lparr>rows_m = 2, buffer_m = [a, b, c, d]\<rparr> \<lparr>rows_m = 2, buffer_m = [e, f, g, h]\<rparr> =
   Inr \<lparr>rows_m = 2, buffer_m = [a - e, b - f, c - g, d - h]\<rparr>"
  by (simp add: operator_minus_def operator_minus_assign_def Rows_Columns_2x2 upt_0_4)

lemma operator_plus_2x2:
  "operator_plus \<lparr>rows_m = 2, buffer_m = [a, b, c, d]\<rparr> \<lparr>rows_m = 2, buffer_m = [e, f, g, h]\<rparr> =
   Inr \<lparr>rows_m = 2, buffer_m = [a + e, b + f, c + g, d + h]\<rparr>"
  by (simp add: operator_plus_def operator_plus_assign_def Rows_Columns_2x2 upt_0_4)

lemma operator_mul_2x2:
  "operator_mul \<lparr>rows_m = 2, buffer_m = [a, b, c, d]\<rparr> \<lparr>rows_m = 2, buffer_m = [e, f, g, h]\<rparr> =
   Inr \<lparr>rows_m = 2, buffer_m = [0 + a * e + b * g, 0 + a * f + b * h,
                                 0 + c * e + d * g, 0 + c * f + d * h]\<rparr>"
  by (simp add: operator_mul_def Rows_Columns_2x2 upt_0_2 Matrix_fill_2_2 element_at_2x2 element_set_2x2)

lemma GetSubmatrix_spec_2x2:
  "GetSubmatrix_spec \<lparr>rows_m = 2, buffer_m = [a, b, c, d]\<rparr> (0, 2) (0, 2) =
   Inr \<lparr>rows_m = 2, buffer_m = [a, b, c, d]\<rparr>"
  by (simp add: GetSubmatrix_spec_def Rows_Columns_2x2 upt_0_2 Matrix_fill_2_2 element_at_2x2 element_set_2x2)

lemma GivensLeftRotation_spec_2x2:
  "GivensLeftRotation_spec \<lparr>rows_m = 2, buffer_m = [p, q, r, s]\<rparr> 0 (Suc 0) a b =
   (case givens_coefficients a b of (cs, sn) \<Rightarrow>
      Inr \<lparr>rows_m = 2, buffer_m = [cs * p + sn * r, cs * q + sn * s, cs * r - sn * p, cs * s - sn * q]\<rparr>)"
  by (simp add: GivensLeftRotation_spec_def Rows_Columns_2x2 upt_0_2 element_at_2x2 element_set_2x2
      split: prod.splits)

lemma GivensRightRotation_spec_2x2:
  "GivensRightRotation_spec \<lparr>rows_m = 2, buffer_m = [p, q, r, s]\<rparr> 0 (Suc 0) a b =
   (case givens_coefficients a b of (cs, sn) \<Rightarrow>
      Inr \<lparr>rows_m = 2, buffer_m = [cs * p + sn * q, cs * q - sn * p, cs * r + sn * s, cs * s - sn * r]\<rparr>)"
  by (simp add: GivensRightRotation_spec_def Rows_Columns_2x2 upt_0_2 element_at_2x2 element_set_2x2
      split: prod.splits)

section \<open>Equality\<close>

text \<open>
  C1. The claim is that \<^verbatim>\<open>A == B\<close> holds if and only if the row counts and the buffers
  agree. \<^verbatim>\<open>operator==\<close> compares the buffers and nothing else: the 2x3 matrix
  \<open>[[1,2,3],[4,5,6]]\<close> and the 3x2 matrix \<open>[[1,2],[3,4],[5,6]]\<close>, as their constructor
  builds them, have different row counts, the same buffer, and compare equal.
\<close>

theorem operator_eq_ignores_rows:
  "Matrix_of_rows [[1, 2, 3], [4, 5, 6 :: int]] = Inr \<lparr>rows_m = 2, buffer_m = [1, 2, 3, 4, 5, 6]\<rparr> \<and>
   Matrix_of_rows [[1, 2], [3, 4], [5, 6 :: int]] = Inr \<lparr>rows_m = 3, buffer_m = [1, 2, 3, 4, 5, 6]\<rparr> \<and>
   operator_eq \<lparr>rows_m = 2, buffer_m = [1, 2, 3, 4, 5, 6 :: int]\<rparr>
               \<lparr>rows_m = 3, buffer_m = [1, 2, 3, 4, 5, 6]\<rparr>"
  by (simp add: Matrix_of_rows_def operator_eq_def)


section \<open>Element access\<close>

text \<open>
  C9. The bounds contract of element access looks at the flat index only. For every matrix
  and every index pair, reading or writing \<^verbatim>\<open>M(row, col)\<close> fails the assertion exactly when
  \<^verbatim>\<open>Columns() * row + col\<close>, as \<^verbatim>\<open>size_t\<close> computes it, is not below the buffer's size,
  and otherwise reads the element at that flat position. Consequently, in a matrix with at
  least two rows, an access with \<open>col \<ge> Columns()\<close> whose flat index is inside the buffer
  is accepted: it returns the element at that flat position, which is the element at column
  \<open>col mod Columns()\<close> of the later row \<open>row + col div Columns()\<close>.
\<close>

theorem element_access_checks_flat_index_only:
  "(element_at m row col = Inl AssertionFailure \<longleftrightarrow>
      length (buffer_m m) \<le> size_wrap (Columns m * row + col)) \<and>
   (element_set m row col v = Inl AssertionFailure \<longleftrightarrow>
      length (buffer_m m) \<le> size_wrap (Columns m * row + col)) \<and>
   (size_wrap (Columns m * row + col) < length (buffer_m m) \<longrightarrow>
      element_at m row col = Inr (buffer_m m ! size_wrap (Columns m * row + col))) \<and>
   (wf_matrix m \<and> 2 \<le> Rows m \<and> Columns m \<le> col \<and> Columns m * row + col < length (buffer_m m) \<longrightarrow>
      element_at m row col = Inr (buffer_m m ! (Columns m * row + col)) \<and>
      element_at m row col = element_at m (row + col div Columns m) (col mod Columns m) \<and>
      row < row + col div Columns m \<and> row + col div Columns m < Rows m \<and>
      col mod Columns m < Columns m)"
proof -
  have a: "element_at m row col = Inl AssertionFailure \<longleftrightarrow>
      length (buffer_m m) \<le> size_wrap (Columns m * row + col)"
    by (simp add: element_at_def flat_index_def)
  have b: "element_set m row col v = Inl AssertionFailure \<longleftrightarrow>
      length (buffer_m m) \<le> size_wrap (Columns m * row + col)"
    by (simp add: element_set_def flat_index_def)
  have c: "size_wrap (Columns m * row + col) < length (buffer_m m) \<longrightarrow>
      element_at m row col = Inr (buffer_m m ! size_wrap (Columns m * row + col))"
    by (simp add: element_at_def flat_index_def)
  have d: "element_at m row col = Inr (buffer_m m ! (Columns m * row + col)) \<and>
      element_at m row col = element_at m (row + col div Columns m) (col mod Columns m) \<and>
      row < row + col div Columns m \<and> row + col div Columns m < Rows m \<and>
      col mod Columns m < Columns m"
    if wf: "wf_matrix m" and r2: "2 \<le> Rows m" and cc: "Columns m \<le> col"
      and fl: "Columns m * row + col < length (buffer_m m)"
  proof -
    let ?C = "Columns m"
    from wf r2 have cpos: "0 < ?C" and len: "length (buffer_m m) = Rows m * ?C"
      and bound: "length (buffer_m m) < 2 ^ 64"
      by (auto simp: wf_matrix_def Rows_def split: if_splits)
    have w1: "size_wrap (?C * row + col) = ?C * row + col"
      using fl bound by (intro size_wrap_id) simp
    have decomp: "?C * (row + col div ?C) + col mod ?C = ?C * row + col"
      by (simp add: algebra_simps)
    have w2: "size_wrap (?C * (row + col div ?C) + col mod ?C) = ?C * row + col"
      using w1 decomp by simp
    have lt: "row + col div ?C < Rows m"
    proof (rule ccontr)
      assume "\<not> row + col div ?C < Rows m"
      then have "Rows m \<le> row + col div ?C" by simp
      then have "Rows m * ?C \<le> (row + col div ?C) * ?C" by (rule mult_le_mono1)
      also have "\<dots> \<le> ?C * row + col"
        using decomp by (simp add: algebra_simps)
      finally show False using fl len by simp
    qed
    have gt: "row < row + col div ?C"
      using cc cpos by (simp add: div_greater_zero_iff)
    show ?thesis
      using fl w1 w2 lt gt cpos by (simp add: element_at_def flat_index_def)
  qed
  from a b c d show ?thesis by blast
qed

theorem element_access_checks_flat_index_only_witness:
  "wf_matrix \<lparr>rows_m = 2, buffer_m = [1, 2, 3, 4 :: int]\<rparr> \<and>
   2 \<le> Rows \<lparr>rows_m = 2, buffer_m = [1, 2, 3, 4 :: int]\<rparr> \<and>
   Columns \<lparr>rows_m = 2, buffer_m = [1, 2, 3, 4 :: int]\<rparr> \<le> 2 \<and>
   element_at \<lparr>rows_m = 2, buffer_m = [1, 2, 3, 4 :: int]\<rparr> 0 2 = Inr 3 \<and>
   element_at \<lparr>rows_m = 2, buffer_m = [1, 2, 3, 4 :: int]\<rparr> 1 0 = Inr 3 \<and>
   element_at \<lparr>rows_m = 2, buffer_m = [1, 2, 3, 4 :: int]\<rparr> 1 2 = Inl AssertionFailure"
  using element_access_checks_flat_index_only
    [of "\<lparr>rows_m = 2, buffer_m = [1, 2, 3, 4 :: int]\<rparr>" 0 2 0]
  by (simp add: wf_matrix_def Rows_def Columns_def element_at_def flat_index_def size_wrap_def)

section \<open>The index arguments of \<^verbatim>\<open>ApplyToEach\<close>\<close>

lemma ApplyToEach_loop_trace:
  assumes "0 < r" and "i \<le> length buf"
  shows "ApplyToEach_loop (\<lambda>v a b tr. (g v a b, tr @ [(v, a, b)])) r i buf tr =
         Inr (take i buf @ map (\<lambda>j. g (buf ! j) (j div r) (j mod r)) [i..<length buf],
              tr @ map (\<lambda>j. (buf ! j, j div r, j mod r)) [i..<length buf])"
  using assms
proof (induction "length buf - i" arbitrary: i buf tr)
  case 0
  then show ?case by (subst ApplyToEach_loop.simps) simp
next
  case (Suc k)
  then have lt: "i < length buf" by simp
  let ?buf = "buf[i := g (buf ! i) (i div r) (i mod r)]"
  have k: "k = length ?buf - (i + 1)" using Suc.hyps(2) by simp
  have le: "i + 1 \<le> length ?buf" using lt by simp
  have same: "\<And>j. j \<in> set [i + 1..<length buf] \<Longrightarrow> ?buf ! j = buf ! j"
    by simp
  have m1: "map (\<lambda>j. g (?buf ! j) (j div r) (j mod r)) [i + 1..<length buf] =
            map (\<lambda>j. g (buf ! j) (j div r) (j mod r)) [i + 1..<length buf]"
    by (rule map_cong[OF refl]) (simp only: same)
  have m2: "map (\<lambda>j. (?buf ! j, j div r, j mod r)) [i + 1..<length buf] =
            map (\<lambda>j. (buf ! j, j div r, j mod r)) [i + 1..<length buf]"
    by (rule map_cong[OF refl]) (simp only: same)
  have tk: "take (i + 1) ?buf = take i buf @ [g (buf ! i) (i div r) (i mod r)]"
    using lt by (simp add: take_Suc_conv_app_nth)
  have up: "[i..<length buf] = i # [i + 1..<length buf]"
    using lt by (simp add: upt_conv_Cons)
  have "ApplyToEach_loop (\<lambda>v a b tr. (g v a b, tr @ [(v, a, b)])) r i buf tr =
        ApplyToEach_loop (\<lambda>v a b tr. (g v a b, tr @ [(v, a, b)])) r (i + 1) ?buf
          (tr @ [(buf ! i, i div r, i mod r)])"
    using lt Suc.prems(1) by (subst ApplyToEach_loop.simps) simp
  also have "\<dots> = Inr (take (i + 1) ?buf @ map (\<lambda>j. g (?buf ! j) (j div r) (j mod r)) [i + 1..<length ?buf],
              (tr @ [(buf ! i, i div r, i mod r)]) @ map (\<lambda>j. (?buf ! j, j div r, j mod r)) [i + 1..<length ?buf])"
    by (rule Suc.hyps(1)[OF k Suc.prems(1) le])
  also have "\<dots> = Inr (take i buf @ map (\<lambda>j. g (buf ! j) (j div r) (j mod r)) [i..<length buf],
              tr @ map (\<lambda>j. (buf ! j, j div r, j mod r)) [i..<length buf])"
    using m1 m2 tk up by simp
  finally show ?case .
qed

lemma index_pairs_square:
  assumes r: "0 < (r::nat)" and c: "0 < (c::nat)"
  shows "(\<forall>i < r * c. (i div r, i mod r) = (i div c, i mod c)) \<longleftrightarrow> r = c"
proof
  assume all: "\<forall>i < r * c. (i div r, i mod r) = (i div c, i mod c)"
  show "r = c"
  proof (rule ccontr)
    assume ne: "r \<noteq> c"
    then have "r < c \<or> c < r" by arith
    then show False
    proof (elim disjE)
      assume 1: "r < c"
      then have "1 < c" using r by simp
      then have lt: "r < r * c" using r by simp
      have "(r div r, r mod r) = (r div c, r mod c)"
        using all[rule_format, OF lt] .
      then have "r div r = r div c" by (rule Pair_inject)
      then show False using 1 r by simp
    next
      assume 2: "c < r"
      then have "1 < r" using c by simp
      then have lt: "c < r * c" using c by simp
      have "(c div r, c mod r) = (c div c, c mod c)"
        using all[rule_format, OF lt] .
      then have "c div r = c div c" by (rule Pair_inject)
      then show False using 2 c by simp
    qed
  qed
next
  assume "r = c"
  then show "\<forall>i < r * c. (i div r, i mod r) = (i div c, i mod c)" by simp
qed

text \<open>
  C10. For every matrix the index-taking \<^verbatim>\<open>ApplyToEach\<close> calls the callback once for
  each flat index \<open>i\<close>, in order, on the element at \<open>i\<close> with the index arguments
  \<open>(i div Rows(), i mod Rows())\<close>: a callback that records its arguments and replaces the
  element by \<open>g\<close> of them leaves exactly that record and that buffer. These arguments are
  the row and the column of the element (\<open>(i div Columns(), i mod Columns())\<close> in the
  row-major buffer) for every element exactly when \<open>Rows() = Columns()\<close>.
\<close>

theorem ApplyToEach_indexes_arguments:
  assumes "wf_matrix m"
  shows "ApplyToEach_indexes (\<lambda>v a b tr. (g v a b, tr @ [(v, a, b)])) m [] =
           Inr (m\<lparr>buffer_m := map (\<lambda>i. g (buffer_m m ! i) (i div Rows m) (i mod Rows m))
                                 [0..<length (buffer_m m)]\<rparr>,
                map (\<lambda>i. (buffer_m m ! i, i div Rows m, i mod Rows m)) [0..<length (buffer_m m)]) \<and>
         ((\<forall>i < length (buffer_m m).
              (i div Rows m, i mod Rows m) = (i div Columns m, i mod Columns m)) \<longleftrightarrow>
          Rows m = Columns m)"
proof (cases "rows_m m = 0")
  case True
  with assms have "buffer_m m = []" by (simp add: wf_matrix_def)
  with True show ?thesis
    by (simp add: ApplyToEach_indexes_def Rows_def Columns_def ApplyToEach_loop.simps)
next
  case False
  with assms have c: "0 < Columns m" and len: "length (buffer_m m) = Rows m * Columns m"
    and r: "0 < Rows m"
    by (simp_all add: wf_matrix_def Rows_def)
  have "ApplyToEach_loop (\<lambda>v a b tr. (g v a b, tr @ [(v, a, b)])) (Rows m) 0 (buffer_m m) [] =
        Inr (take 0 (buffer_m m) @ map (\<lambda>j. g (buffer_m m ! j) (j div Rows m) (j mod Rows m)) [0..<length (buffer_m m)],
             [] @ map (\<lambda>j. (buffer_m m ! j, j div Rows m, j mod Rows m)) [0..<length (buffer_m m)])"
    by (rule ApplyToEach_loop_trace[OF r]) simp
  then have first: "ApplyToEach_indexes (\<lambda>v a b tr. (g v a b, tr @ [(v, a, b)])) m [] =
           Inr (m\<lparr>buffer_m := map (\<lambda>i. g (buffer_m m ! i) (i div Rows m) (i mod Rows m))
                                 [0..<length (buffer_m m)]\<rparr>,
                map (\<lambda>i. (buffer_m m ! i, i div Rows m, i mod Rows m)) [0..<length (buffer_m m)])"
    by (simp add: ApplyToEach_indexes_def)
  have second: "(\<forall>i < length (buffer_m m).
              (i div Rows m, i mod Rows m) = (i div Columns m, i mod Columns m)) \<longleftrightarrow>
          Rows m = Columns m"
    unfolding len by (rule index_pairs_square[OF r c])
  from first second show ?thesis by blast
qed

theorem ApplyToEach_indexes_arguments_witness:
  "wf_matrix \<lparr>rows_m = 2, buffer_m = [10, 20, 30, 40, 50, 60 :: int]\<rparr> \<and>
   ApplyToEach_indexes (\<lambda>v a b tr. (v + 1, tr @ [(v, a, b)]))
     \<lparr>rows_m = 2, buffer_m = [10, 20, 30, 40, 50, 60 :: int]\<rparr> [] =
     Inr (\<lparr>rows_m = 2, buffer_m = [11, 21, 31, 41, 51, 61]\<rparr>,
          [(10, 0, 0), (20, 0, 1), (30, 1, 0), (40, 1, 1), (50, 2, 0), (60, 2, 1)]) \<and>
   Rows \<lparr>rows_m = 2, buffer_m = [10, 20, 30, 40, 50, 60 :: int]\<rparr> \<noteq>
   Columns \<lparr>rows_m = 2, buffer_m = [10, 20, 30, 40, 50, 60 :: int]\<rparr>"
proof -
  let ?m = "\<lparr>rows_m = 2, buffer_m = [10, 20, 30, 40, 50, 60 :: int]\<rparr>"
  have wf: "wf_matrix ?m"
    by (simp add: wf_matrix_def Columns_def)
  have ne: "Rows ?m \<noteq> Columns ?m"
    by (simp add: Rows_def Columns_def)
  have m1: "map (\<lambda>i. buffer_m ?m ! i + 1) [0..<length (buffer_m ?m)] = [11, 21, 31, 41, 51, 61]"
    by code_simp
  have m2: "map (\<lambda>i. (buffer_m ?m ! i, i div Rows ?m, i mod Rows ?m)) [0..<length (buffer_m ?m)] =
            [(10, 0, 0), (20, 0, 1), (30, 1, 0), (40, 1, 1), (50, 2, 0), (60, 2, 1)]"
    by code_simp
  have "ApplyToEach_indexes (\<lambda>v a b tr. (v + 1, tr @ [(v, a, b)])) ?m [] =
        Inr (?m\<lparr>buffer_m := map (\<lambda>i. buffer_m ?m ! i + 1) [0..<length (buffer_m ?m)]\<rparr>,
             map (\<lambda>i. (buffer_m ?m ! i, i div Rows ?m, i mod Rows ?m)) [0..<length (buffer_m ?m)])"
    using ApplyToEach_indexes_arguments[OF wf, of "\<lambda>v a b. v + 1"] by (rule conjunct1)
  then have "ApplyToEach_indexes (\<lambda>v a b tr. (v + 1, tr @ [(v, a, b)])) ?m [] =
        Inr (\<lparr>rows_m = 2, buffer_m = [11, 21, 31, 41, 51, 61]\<rparr>,
          [(10, 0, 0), (20, 0, 1), (30, 1, 0), (40, 1, 1), (50, 2, 0), (60, 2, 1)])"
    unfolding m1 m2 by simp
  with wf ne show ?thesis by blast
qed

section \<open>In-place transposition\<close>

lemma visited_set_update:
  "s < length vis \<Longrightarrow> visited_set (vis[s := True]) = insert s (visited_set vis)"
  by (auto simp: visited_set_def nth_list_update)

lemma visited_set_bound: "visited_set vis \<subseteq> {..<length vis}"
  by (auto simp: visited_set_def)

lemma swap_at_length: "length (swap_at xs a b) = length xs"
  by (simp add: swap_at_def)

lemma swap_at_nth:
  "a < length xs \<Longrightarrow> b < length xs \<Longrightarrow> x < length xs \<Longrightarrow>
   swap_at xs a b ! x = (if x = b then xs ! a else if x = a then xs ! b else xs ! x)"
  by (simp add: swap_at_def nth_list_update)

lemma swap_at_same: "swap_at xs a a = xs"
  by (simp add: swap_at_def)

lemma Transpose_cycle_correct:
  fixes p q :: "nat \<Rightarrow> nat"
  assumes p_def: "\<And>x. x < n \<Longrightarrow> next_idx r last_idx x = p x"
    and pq: "\<And>x. x < n \<Longrightarrow> p x < n \<and> q x < n \<and> p (q x) = x \<and> q (p x) = x"
    and W: "\<And>x. x < n \<Longrightarrow> p x \<in> W \<longleftrightarrow> x \<in> W"
    and i: "i < n" "i \<notin> W"
  shows "length buf = n \<Longrightarrow> length vis = n \<Longrightarrow> s < n \<Longrightarrow>
    visited_set vis = W \<union> P \<Longrightarrow> P \<inter> W = {} \<Longrightarrow> i \<notin> P \<Longrightarrow> s = i \<or> s \<in> P \<Longrightarrow>
    (\<And>x. x \<in> P \<Longrightarrow> q x \<noteq> s \<and> (q x = i \<or> q x \<in> P)) \<Longrightarrow>
    (\<And>x. x \<in> P \<Longrightarrow> buf ! x = buf0 ! q x) \<Longrightarrow>
    buf ! i = buf0 ! s \<Longrightarrow>
    (\<And>x. x < n \<Longrightarrow> x \<notin> P \<Longrightarrow> x \<noteq> i \<Longrightarrow> buf ! x = buf0 ! x) \<Longrightarrow>
    \<exists>buf' vis' P'. Transpose_cycle r last_idx i s buf vis = Some (buf', vis') \<and>
       length buf' = n \<and> length vis' = n \<and> visited_set vis' = W \<union> P' \<and> P' \<inter> W = {} \<and>
       i \<in> P' \<and> (\<forall>x\<in>P'. q x \<in> P' \<and> buf' ! x = buf0 ! q x) \<and>
       (\<forall>x<n. x \<notin> P' \<longrightarrow> buf' ! x = buf0 ! x)"
proof (induction "card ({..<n} - visited_set vis)" arbitrary: s buf vis P rule: less_induct)
  case less
  note lb = \<open>length buf = n\<close> and lv = \<open>length vis = n\<close> and sn = \<open>s < n\<close>
    and vs = \<open>visited_set vis = W \<union> P\<close> and dj = \<open>P \<inter> W = {}\<close> and iP = \<open>i \<notin> P\<close>
    and sP = \<open>s = i \<or> s \<in> P\<close>
    and path = less.prems(8) and bufP = less.prems(9) and bufi = \<open>buf ! i = buf0 ! s\<close>
    and bufo = less.prems(11)
  let ?s = "p s"
  have nx: "next_idx r last_idx s = ?s" using p_def sn by simp
  have s'n: "?s < n" and qs': "q ?s = s" using pq sn by simp_all
  have Pn: "P \<subseteq> {..<n}" using visited_set_bound[of vis] vs lv by auto
  have sW: "s \<notin> W" using sP i(2) dj by auto
  have s'W: "?s \<notin> W" using W[OF sn] sW by simp
  have s'P: "?s \<notin> P" using path qs' by blast
  have unf: "Transpose_cycle r last_idx i s buf vis =
      (if ?s \<noteq> i then Transpose_cycle r last_idx i ?s (swap_at buf ?s i) (vis[?s := True])
       else Some (swap_at buf ?s i, vis[?s := True]))"
    by (subst Transpose_cycle.simps) (simp add: nx Let_def)
  show ?case
  proof (cases "?s = i")
    case True
    have res: "Transpose_cycle r last_idx i s buf vis = Some (buf, vis[i := True])"
      using unf True by (simp add: swap_at_same)
    have v': "visited_set (vis[i := True]) = W \<union> insert i P"
      using visited_set_update[of i vis] lv i(1) vs by auto
    have qi: "q i = s" using qs' True by simp
    have a: "\<forall>x\<in>insert i P. q x \<in> insert i P \<and> buf ! x = buf0 ! q x"
      using path bufP bufi qi sP by auto
    have b: "\<forall>x<n. x \<notin> insert i P \<longrightarrow> buf ! x = buf0 ! x"
      using bufo by auto
    have c: "insert i P \<inter> W = {}" using dj i(2) by auto
    show ?thesis
      using res lb lv v' a b c by (intro exI[of _ buf] exI[of _ "vis[i := True]"] exI[of _ "insert i P"]) simp
  next
    case False
    let ?buf = "swap_at buf ?s i" and ?vis = "vis[?s := True]" and ?P = "insert ?s P"
    have res: "Transpose_cycle r last_idx i s buf vis = Transpose_cycle r last_idx i ?s ?buf ?vis"
      using unf False by simp
    have v': "visited_set ?vis = W \<union> ?P"
      using visited_set_update[of ?s vis] lv s'n vs by auto
    have fresh: "?s \<notin> visited_set vis" using vs s'W s'P by simp
    have "{..<n} - visited_set ?vis \<subset> {..<n} - visited_set vis"
      using v' vs fresh s'n by auto
    then have dec: "card ({..<n} - visited_set ?vis) < card ({..<n} - visited_set vis)"
      by (intro psubset_card_mono) simp_all
    have ss': "s \<noteq> ?s" using sP False s'P by auto
    have path': "\<And>x. x \<in> ?P \<Longrightarrow> q x \<noteq> ?s \<and> (q x = i \<or> q x \<in> ?P)"
    proof -
      fix x assume "x \<in> ?P"
      then consider "x = ?s" | "x \<in> P" by auto
      then show "q x \<noteq> ?s \<and> (q x = i \<or> q x \<in> ?P)"
      proof cases
        case 1
        then show ?thesis using qs' ss' sP by auto
      next
        case 2
        then show ?thesis using path[OF 2] s'P False by auto
      qed
    qed
    have bufP': "\<And>x. x \<in> ?P \<Longrightarrow> ?buf ! x = buf0 ! q x"
    proof -
      fix x assume xP: "x \<in> ?P"
      then have xn: "x < n" using Pn s'n by auto
      from xP consider "x = ?s" | "x \<in> P" by auto
      then show "?buf ! x = buf0 ! q x"
      proof cases
        case 1
        then show ?thesis
          using swap_at_nth[of ?s buf i x] lb s'n i(1) False bufi qs' by simp
      next
        case 2
        then have "x \<noteq> i" "x \<noteq> ?s" using iP s'P by auto
        then show ?thesis
          using swap_at_nth[of ?s buf i x] lb s'n i(1) xn bufP[OF 2] by simp
      qed
    qed
    have bufi': "?buf ! i = buf0 ! ?s"
      using swap_at_nth[of ?s buf i i] lb s'n i(1) bufo[OF s'n s'P False] by simp
    have bufo': "\<And>x. x < n \<Longrightarrow> x \<notin> ?P \<Longrightarrow> x \<noteq> i \<Longrightarrow> ?buf ! x = buf0 ! x"
    proof -
      fix x assume "x < n" "x \<notin> ?P" "x \<noteq> i"
      then show "?buf ! x = buf0 ! x"
        using swap_at_nth[of ?s buf i x] lb s'n i(1) bufo[of x] by simp
    qed
    have "\<exists>buf' vis' P'. Transpose_cycle r last_idx i ?s ?buf ?vis = Some (buf', vis') \<and>
       length buf' = n \<and> length vis' = n \<and> visited_set vis' = W \<union> P' \<and> P' \<inter> W = {} \<and>
       i \<in> P' \<and> (\<forall>x\<in>P'. q x \<in> P' \<and> buf' ! x = buf0 ! q x) \<and>
       (\<forall>x<n. x \<notin> P' \<longrightarrow> buf' ! x = buf0 ! x)"
    proof (rule less.hyps[OF dec, where P = ?P])
      show "length ?buf = n" using lb by (simp add: swap_at_length)
      show "length ?vis = n" using lv by simp
      show "?s < n" by (rule s'n)
      show "visited_set ?vis = W \<union> ?P" by (rule v')
      show "?P \<inter> W = {}" using dj s'W by auto
      show "i \<notin> ?P" using iP False by auto
      show "?s = i \<or> ?s \<in> ?P" by simp
      show "\<And>x. x \<in> ?P \<Longrightarrow> q x \<noteq> ?s \<and> (q x = i \<or> q x \<in> ?P)" by (rule path')
      show "\<And>x. x \<in> ?P \<Longrightarrow> ?buf ! x = buf0 ! q x" by (rule bufP')
      show "?buf ! i = buf0 ! ?s" by (rule bufi')
      show "\<And>x. x < n \<Longrightarrow> x \<notin> ?P \<Longrightarrow> x \<noteq> i \<Longrightarrow> ?buf ! x = buf0 ! x" by (rule bufo')
    qed
    then show ?thesis using res by simp
  qed
qed


lemma closed_under_inverse:
  fixes p q :: "nat \<Rightarrow> nat"
  assumes pq: "\<And>x. x < n \<Longrightarrow> p x < n \<and> q x < n \<and> p (q x) = x \<and> q (p x) = x"
    and Pn: "P \<subseteq> {..<n}" and cl: "\<And>x. x \<in> P \<Longrightarrow> q x \<in> P" and x: "x < n"
  shows "p x \<in> P \<longleftrightarrow> x \<in> P"
proof
  assume "p x \<in> P"
  then have "q (p x) \<in> P" by (rule cl)
  then show "x \<in> P" using pq[OF x] by simp
next
  assume xP: "x \<in> P"
  have fin: "finite P" using Pn by (rule finite_subset) simp
  have inj: "inj_on q P"
  proof (rule inj_onI)
    fix a b assume "a \<in> P" "b \<in> P" "q a = q b"
    then have "p (q a) = p (q b)" "a < n" "b < n" using Pn by auto
    then show "a = b" using pq by simp
  qed
  have "q ` P \<subseteq> P" using cl by auto
  then have "q ` P = P" using fin inj by (simp add: card_image card_subset_eq)
  then obtain y where y: "y \<in> P" "x = q y" using xP by auto
  then have "y < n" using Pn by auto
  then have "p x = y" using y pq by simp
  then show "p x \<in> P" using y by simp
qed

lemma Transpose_loop_correct:
  fixes p q :: "nat \<Rightarrow> nat"
  assumes p_def: "\<And>x. x < n \<Longrightarrow> next_idx r last_idx x = p x"
    and pq: "\<And>x. x < n \<Longrightarrow> p x < n \<and> q x < n \<and> p (q x) = x \<and> q (p x) = x"
    and q0: "q 0 = 0"
  shows "length buf = n \<Longrightarrow> length vis = n \<Longrightarrow> 1 \<le> i \<Longrightarrow>
    (\<And>x. x < n \<Longrightarrow> p x \<in> visited_set vis \<longleftrightarrow> x \<in> visited_set vis) \<Longrightarrow>
    (\<And>x. x \<in> visited_set vis \<Longrightarrow> buf ! x = b0 ! q x) \<Longrightarrow>
    (\<And>x. x < n \<Longrightarrow> x \<notin> visited_set vis \<Longrightarrow> buf ! x = b0 ! x) \<Longrightarrow>
    (\<And>j. 1 \<le> j \<Longrightarrow> j < i \<Longrightarrow> j \<in> visited_set vis) \<Longrightarrow>
    \<exists>buf'. Transpose_loop r last_idx i buf vis = Some buf' \<and> length buf' = n \<and>
       (\<forall>x<n. buf' ! x = b0 ! q x)"
proof (induction "n - i" arbitrary: i buf vis)
  case 0
  note lb = \<open>length buf = n\<close> and bufV = "0.prems"(5) and bufN = "0.prems"(6) and dn = "0.prems"(7)
  from "0.hyps" have ge: "n \<le> i" by simp
  have res: "Transpose_loop r last_idx i buf vis = Some buf"
    using ge lb by (subst Transpose_loop.simps) simp
  have "buf ! x = b0 ! q x" if x: "x < n" for x
  proof (cases "x \<in> visited_set vis")
    case True
    then show ?thesis by (rule bufV)
  next
    case False
    then have "x = 0" using dn[of x] x ge by (cases x) auto
    then show ?thesis using bufN[OF x False] q0 by simp
  qed
  then show ?case using res lb by simp
next
  case (Suc k)
  note lb = \<open>length buf = n\<close> and lv = \<open>length vis = n\<close> and i1 = \<open>1 \<le> i\<close>
    and cl = Suc.prems(4) and bufV = Suc.prems(5) and bufN = Suc.prems(6) and dn = Suc.prems(7)
  from Suc.hyps(2) have lt: "i < n" and k: "k = n - (i + 1)" by simp_all
  show ?case
  proof (cases "vis ! i")
    case True
    have res: "Transpose_loop r last_idx i buf vis = Transpose_loop r last_idx (i + 1) buf vis"
      using lt lb True by (subst Transpose_loop.simps) simp
    have iV: "i \<in> visited_set vis" using True lt lv by (simp add: visited_set_def)
    have dn': "\<And>j. 1 \<le> j \<Longrightarrow> j < i + 1 \<Longrightarrow> j \<in> visited_set vis"
      using dn iV by (metis Suc_eq_plus1 less_Suc_eq)
    have "\<exists>buf'. Transpose_loop r last_idx (i + 1) buf vis = Some buf' \<and> length buf' = n \<and>
       (\<forall>x<n. buf' ! x = b0 ! q x)"
      by (rule Suc.hyps(1)[OF k lb lv _ cl bufV bufN dn']) simp_all
    then show ?thesis using res by simp
  next
    case False
    let ?V = "visited_set vis"
    have iV: "i \<notin> ?V" using False by (simp add: visited_set_def)
    have "\<exists>buf' vis' P'. Transpose_cycle r last_idx i i buf vis = Some (buf', vis') \<and>
       length buf' = n \<and> length vis' = n \<and> visited_set vis' = ?V \<union> P' \<and> P' \<inter> ?V = {} \<and>
       i \<in> P' \<and> (\<forall>x\<in>P'. q x \<in> P' \<and> buf' ! x = buf ! q x) \<and>
       (\<forall>x<n. x \<notin> P' \<longrightarrow> buf' ! x = buf ! x)"
      by (rule Transpose_cycle_correct[where p = p and q = q and W = ?V and P = "{}",
                OF p_def pq cl lt iV lb lv lt]) simp_all
    then obtain buf' vis' P' where
      cyc: "Transpose_cycle r last_idx i i buf vis = Some (buf', vis')"
      and lb': "length buf' = n" and lv': "length vis' = n"
      and v': "visited_set vis' = ?V \<union> P'" and dj: "P' \<inter> ?V = {}" and iP: "i \<in> P'"
      and P'q: "\<And>x. x \<in> P' \<Longrightarrow> q x \<in> P'"
      and P'b: "\<And>x. x \<in> P' \<Longrightarrow> buf' ! x = buf ! q x"
      and rest: "\<And>x. x < n \<Longrightarrow> x \<notin> P' \<Longrightarrow> buf' ! x = buf ! x"
      by blast
    have res: "Transpose_loop r last_idx i buf vis = Transpose_loop r last_idx (i + 1) buf' vis'"
      using lt lb False cyc by (subst Transpose_loop.simps) simp
    have Pn: "P' \<subseteq> {..<n}" using visited_set_bound[of vis'] v' lv' by auto
    have cl': "\<And>x. x < n \<Longrightarrow> p x \<in> visited_set vis' \<longleftrightarrow> x \<in> visited_set vis'"
      using closed_under_inverse[where p = p and q = q and P = P' and n = n, OF pq Pn P'q] cl v'
      by simp
    have bufV': "\<And>x. x \<in> visited_set vis' \<Longrightarrow> buf' ! x = b0 ! q x"
    proof -
      fix x assume "x \<in> visited_set vis'"
      then consider "x \<in> P'" | "x \<in> ?V" "x \<notin> P'" using v' by auto
      then show "buf' ! x = b0 ! q x"
      proof cases
        case 1
        then have qP: "q x \<in> P'" by (rule P'q)
        then have "q x \<notin> ?V" "q x < n" using dj Pn by auto
        then have "buf ! q x = b0 ! q x" using bufN by simp
        then show ?thesis using P'b[OF 1] by simp
      next
        case 2
        then have "x < n" using visited_set_bound[of vis] lv by auto
        then show ?thesis using rest 2 bufV by simp
      qed
    qed
    have bufN': "\<And>x. x < n \<Longrightarrow> x \<notin> visited_set vis' \<Longrightarrow> buf' ! x = b0 ! x"
      using rest bufN v' by simp
    have dn': "\<And>j. 1 \<le> j \<Longrightarrow> j < i + 1 \<Longrightarrow> j \<in> visited_set vis'"
      using dn iP v' by (metis Suc_eq_plus1 less_Suc_eq UnI1 UnI2)
    have "\<exists>buf''. Transpose_loop r last_idx (i + 1) buf' vis' = Some buf'' \<and> length buf'' = n \<and>
       (\<forall>x<n. buf'' ! x = b0 ! q x)"
      by (rule Suc.hyps(1)[OF k lb' lv' _ cl' bufV' bufN' dn']) simp_all
    then show ?thesis using res by simp
  qed
qed


lemma mult_mod_pred:
  assumes "2 \<le> (n::nat)" and "a * b = n" and "x < n - 1"
  shows "(a * ((b * x) mod (n - 1))) mod (n - 1) = x"
proof -
  have "(a * ((b * x) mod (n - 1))) mod (n - 1) = (a * (b * x)) mod (n - 1)"
    by (rule mod_mult_right_eq)
  also have "a * (b * x) = (n - 1) * x + x"
    using assms(1,2) by (metis Suc_diff_1 add.commute mult.assoc mult_Suc
        Suc_1 Suc_le_lessD less_imp_Suc_add zero_less_Suc)
  also have "((n - 1) * x + x) mod (n - 1) = x"
    using assms(3) by simp
  finally show ?thesis .
qed

lemma next_idx_source_idx:
  assumes n2: "2 \<le> n" and rc: "r * c = n" and small: "r * n < 2 ^ 64" and x: "x < n"
  shows "next_idx r (n - 1) x < n \<and> source_idx c (n - 1) x < n \<and>
         next_idx r (n - 1) (source_idx c (n - 1) x) = x \<and>
         source_idx c (n - 1) (next_idx r (n - 1) x) = x"
proof -
  have wrap: "size_wrap (r * y) = r * y" if "y < n" for y
  proof (rule size_wrap_id)
    have "r * y \<le> r * n" using that by simp
    then show "r * y < 2 ^ 64" using small by (rule le_less_trans)
  qed
  have L: "0 < n - 1" using n2 by simp
  show ?thesis
  proof (cases "x = n - 1")
    case True
    then show ?thesis using x by (simp add: next_idx_def source_idx_def)
  next
    case False
    then have xl: "x < n - 1" using x by simp
    have ql: "(c * x) mod (n - 1) < n - 1" and pl: "(r * x) mod (n - 1) < n - 1"
      using L by simp_all
    have cr: "c * r = n" using rc by (simp add: mult.commute)
    have a: "next_idx r (n - 1) x = (r * x) mod (n - 1)"
      using False wrap[OF x] by (simp add: next_idx_def)
    have b: "source_idx c (n - 1) x = (c * x) mod (n - 1)"
      using False by (simp add: source_idx_def)
    have c: "next_idx r (n - 1) ((c * x) mod (n - 1)) = (r * ((c * x) mod (n - 1))) mod (n - 1)"
      using ql wrap[of "(c * x) mod (n - 1)"] by (simp add: next_idx_def)
    have d: "source_idx c (n - 1) ((r * x) mod (n - 1)) = (c * ((r * x) mod (n - 1))) mod (n - 1)"
      using pl by (simp add: source_idx_def)
    have ql': "(c * x) mod (n - 1) < n" and pl': "(r * x) mod (n - 1) < n"
      using ql pl by linarith+
    show ?thesis
      using a b c d ql' pl' mult_mod_pred[OF n2 rc xl] mult_mod_pred[OF n2 cr xl] by simp
  qed
qed

lemma Transpose_correct:
  assumes wf: "wf_matrix m" and small: "Rows m * length (buffer_m m) < 2 ^ 64"
  shows "\<exists>buf'. Transpose m = Some \<lparr>rows_m = Columns m, buffer_m = buf'\<rparr> \<and>
           length buf' = length (buffer_m m) \<and>
           (\<forall>x<length (buffer_m m).
              buf' ! x = buffer_m m ! source_idx (Columns m) (length (buffer_m m) - 1) x)"
proof -
  let ?n = "length (buffer_m m)" and ?r = "rows_m m" and ?c = "Columns m"
  have n64: "?n < 2 ^ 64" using wf by (simp add: wf_matrix_def)
  consider "?n = 0" | "?n = 1" | "2 \<le> ?n" by linarith
  then show ?thesis
  proof cases
    case 1
    then have "?r = 0" using wf by (auto simp: wf_matrix_def split: if_splits)
    then show ?thesis using 1
      by (simp add: Transpose_def Transpose_loop.simps Columns_def)
  next
    case 2
    then have r: "?r \<noteq> 0" and rc: "?r * ?c = 1" using wf by (auto simp: wf_matrix_def split: if_splits)
    then have "?r = 1" by simp
    then have cols: "?c = 1" using rc by simp
    have "Transpose m = Some \<lparr>rows_m = ?c, buffer_m = buffer_m m\<rparr>"
      using 2 \<open>?r = 1\<close> by (simp add: Transpose_def Transpose_loop.simps Columns_def)
    then show ?thesis using 2 by (simp add: source_idx_def)
  next
    case 3
    then have r: "?r \<noteq> 0" using wf by (auto simp: wf_matrix_def split: if_splits)
    with wf have c: "0 < ?c" and rc: "?r * ?c = ?n" by (simp_all add: wf_matrix_def)
    have rn: "?r * ?n < 2 ^ 64" using small by (simp add: Rows_def)
    have last: "size_wrap (?n + 2 ^ 64 - 1) = ?n - 1"
    proof -
      have "?n + 2 ^ 64 - 1 = (?n - 1) + 1 * 2 ^ 64" using 3 by simp
      then have "size_wrap (?n + 2 ^ 64 - 1) = (?n - 1) mod 2 ^ 64"
        unfolding size_wrap_def by (simp only: mod_mult_self1)
      then show ?thesis using n64 by simp
    qed
    let ?p = "next_idx ?r (?n - 1)" and ?q = "source_idx ?c (?n - 1)"
    have pq: "\<And>x. x < ?n \<Longrightarrow> ?p x < ?n \<and> ?q x < ?n \<and> ?p (?q x) = x \<and> ?q (?p x) = x"
      by (rule next_idx_source_idx[OF 3 rc rn])
    have q0: "?q 0 = 0" using 3 by (simp add: source_idx_def)
    have "\<exists>buf'. Transpose_loop ?r (?n - 1) 1 (buffer_m m) (replicate ?n False) = Some buf' \<and>
            length buf' = ?n \<and> (\<forall>x<?n. buf' ! x = buffer_m m ! ?q x)"
      by (rule Transpose_loop_correct[where p = ?p and q = ?q, OF _ pq q0])
         (auto simp: visited_set_def)
    then obtain buf' where lp: "Transpose_loop ?r (?n - 1) 1 (buffer_m m) (replicate ?n False) = Some buf'"
      and len: "length buf' = ?n" and el: "\<forall>x<?n. buf' ! x = buffer_m m ! ?q x"
      by blast
    have cols: "Columns \<lparr>rows_m = ?r, buffer_m = buf'\<rparr> = ?c"
      using len by (simp add: Columns_def)
    have "Transpose m = Some \<lparr>rows_m = ?c, buffer_m = buf'\<rparr>"
      using lp last cols by (simp add: Transpose_def Rows_def Let_def)
    then show ?thesis using len el by blast
  qed
qed

lemma flat_last_unique:
  assumes "row < (r::nat)" and "col < c" and "r * col + row = r * c - 1"
  shows "col = c - 1 \<and> row = r - 1"
proof -
  obtain r' where r': "r = Suc r'" using assms(1) by (cases r) auto
  obtain c' where c': "c = Suc c'" using assms(2) by (cases c) auto
  have ld: "r * c - 1 = r * c' + r'" using r' c' by simp
  have lt: "r' < r" using r' by simp
  have e: "r * col + row = r * c' + r'" using assms(3) ld by (rule trans)
  have a1: "(r * col + row) div r = col" and a2: "(r * col + row) mod r = row"
    using assms(1) by simp_all
  have b1: "(r * c' + r') div r = c'" and b2: "(r * c' + r') mod r = r'"
    using lt by simp_all
  have "col = c'" using a1 b1 by (simp only: e)
  moreover have "row = r'" using a2 b2 by (simp only: e)
  ultimately show ?thesis using r' c' by simp
qed

lemma flat_le_last:
  assumes "row < (r::nat)" and "col < c"
  shows "r * col + row \<le> r * c - 1"
proof -
  have "r * col + row < r * col + r" using assms(1) by simp
  also have "\<dots> = r * (col + 1)" by simp
  also have "\<dots> \<le> r * c" using assms(2) by (intro mult_le_mono2) simp
  finally show ?thesis by simp
qed

lemma source_idx_transposed:
  assumes row: "row < r" and col: "col < c"
  shows "source_idx c (r * c - 1) (r * col + row) = c * row + col"
proof (cases "r * col + row = r * c - 1")
  case True
  then have e: "col = c - 1" "row = r - 1" using flat_last_unique[OF row col] by simp_all
  obtain r' where r': "r = Suc r'" using row by (cases r) auto
  obtain c' where c': "c = Suc c'" using col by (cases c) auto
  have "c * row + col = r * c - 1"
    using e r' c' by simp
  then show ?thesis using True by (simp add: source_idx_def)
next
  case False
  let ?L = "r * c - 1"
  have le: "c * row + col \<le> c * r - 1" by (rule flat_le_last[OF col row])
  have ne: "c * row + col \<noteq> c * r - 1"
  proof
    assume "c * row + col = c * r - 1"
    then have "row = r - 1 \<and> col = c - 1" by (rule flat_last_unique[OF col row])
    then have "r * col + row = r * (c - 1) + (r - 1)" by simp
    also have "\<dots> = r * c - 1"
    proof -
      obtain r' where "r = Suc r'" using row by (cases r) auto
      moreover obtain c' where "c = Suc c'" using col by (cases c) auto
      ultimately show ?thesis by simp
    qed
    finally show False using False by simp
  qed
  have pos: "0 < r * c" using row col by simp
  then obtain L where L: "r * c = Suc L" by (cases "r * c") auto
  then have L': "r * c - 1 = L" by simp
  have lt: "c * row + col < L" using le ne L by (simp add: mult.commute)
  have "c * (r * col + row) = (r * c) * col + c * row" by (simp add: algebra_simps)
  also have "\<dots> = L * col + (c * row + col)" unfolding L by simp
  finally have "c * (r * col + row) mod L = (c * row + col) mod L"
    by (simp only: mod_mult_self4)
  then show ?thesis using False lt unfolding L' by (simp add: source_idx_def)
qed

lemma source_idx_involution:
  assumes "r * c = n" and "x < n"
  shows "source_idx c (n - 1) (source_idx r (n - 1) x) = x"
proof (cases "x = n - 1")
  case True
  then show ?thesis by (simp add: source_idx_def)
next
  case False
  then have xl: "x < n - 1" and n2: "2 \<le> n" using assms(2) by simp_all
  have cr: "c * r = n" using assms(1) by (simp add: mult.commute)
  have "(r * x) mod (n - 1) < n - 1" using xl by simp
  then show ?thesis
    using False mult_mod_pred[OF n2 cr xl] by (simp add: source_idx_def)
qed

lemma wf_matrix_transposed:
  assumes wf: "wf_matrix m" and len: "length buf = length (buffer_m m)"
  shows "wf_matrix \<lparr>rows_m = Columns m, buffer_m = buf\<rparr> \<and>
         Columns \<lparr>rows_m = Columns m, buffer_m = buf\<rparr> = rows_m m"
proof (cases "rows_m m = 0")
  case True
  then show ?thesis using wf len by (simp add: wf_matrix_def Columns_def)
next
  case False
  with wf have c: "0 < Columns m" and rc: "length (buffer_m m) = rows_m m * Columns m"
    and b: "length (buffer_m m) < 2 ^ 64"
    by (simp_all add: wf_matrix_def)
  have "Columns \<lparr>rows_m = Columns m, buffer_m = buf\<rparr> = rows_m m"
    using c rc len by (simp add: Columns_def[of "\<lparr>rows_m = Columns m, buffer_m = buf\<rparr>"])
  then show ?thesis using c rc len b False
    by (simp add: wf_matrix_def[of "\<lparr>rows_m = Columns m, buffer_m = buf\<rparr>"] mult.commute)
qed

text \<open>
  C2. \<^verbatim>\<open>Transpose\<close> transposes in place by following cycles. For every matrix with
  \<open>R\<close> rows, \<open>C\<close> columns and a buffer of \<open>N = R * C\<close> elements (with \<open>R * N < 2^64\<close>, so
  that the products \<^verbatim>\<open>Rows() * swap_idx\<close> fit \<^verbatim>\<open>size_t\<close>), both loops end, the element
  that was at flat index \<open>i\<close> with \<open>0 < i < N - 1\<close> is at flat index \<open>(R * i) mod (N - 1)\<close>,
  the flat indices \<open>0\<close> and \<open>N - 1\<close> hold their elements, the row count is the old column
  count \<open>C\<close>, and the result is the transposed matrix: its element \<open>(col, row)\<close> is the
  element \<open>(row, col)\<close> of the original. In particular \<open>[[1,2,3],[4,5,6]]\<close> becomes
  \<open>[[1,4],[2,5],[3,6]]\<close>.
\<close>

theorem Transpose_moves_elements:
  assumes wf: "wf_matrix m" and small: "Rows m * length (buffer_m m) < 2 ^ 64"
  shows "(\<exists>m'. Transpose m = Some m' \<and> Rows m' = Columns m \<and>
            length (buffer_m m') = length (buffer_m m) \<and>
            (\<forall>i. 0 < i \<and> i < length (buffer_m m) - 1 \<longrightarrow>
                 buffer_m m' ! ((Rows m * i) mod (length (buffer_m m) - 1)) = buffer_m m ! i) \<and>
            (0 < length (buffer_m m) \<longrightarrow>
                 buffer_m m' ! 0 = buffer_m m ! 0 \<and>
                 buffer_m m' ! (length (buffer_m m) - 1) = buffer_m m ! (length (buffer_m m) - 1)) \<and>
            (\<forall>row col. row < Rows m \<and> col < Columns m \<longrightarrow>
                 element_at m row col = Inr (buffer_m m ! (Columns m * row + col)) \<and>
                 element_at m' col row = element_at m row col)) \<and>
         Matrix_of_rows [[1, 2, 3], [4, 5, 6 :: real]] = Inr \<lparr>rows_m = 2, buffer_m = [1, 2, 3, 4, 5, 6]\<rparr> \<and>
         Transpose \<lparr>rows_m = 2, buffer_m = [1, 2, 3, 4, 5, 6 :: real]\<rparr> =
           Some \<lparr>rows_m = 3, buffer_m = [1, 4, 2, 5, 3, 6]\<rparr> \<and>
         Matrix_of_rows [[1, 4], [2, 5], [3, 6 :: real]] = Inr \<lparr>rows_m = 3, buffer_m = [1, 4, 2, 5, 3, 6]\<rparr>"
proof -
  let ?n = "length (buffer_m m)" and ?r = "rows_m m" and ?c = "Columns m"
  let ?q = "source_idx ?c (?n - 1)"
  from Transpose_correct[OF wf small] obtain buf' where
    tr: "Transpose m = Some \<lparr>rows_m = ?c, buffer_m = buf'\<rparr>" and len: "length buf' = ?n"
    and el: "\<And>x. x < ?n \<Longrightarrow> buf' ! x = buffer_m m ! ?q x"
    by blast
  let ?m' = "\<lparr>rows_m = ?c, buffer_m = buf'\<rparr>"
  have n64: "?n < 2 ^ 64" using wf by (simp add: wf_matrix_def)
  have cols': "Columns ?m' = ?r" and wf': "wf_matrix ?m'"
    using wf_matrix_transposed[OF wf len] by simp_all
  have moved: "buf' ! ((?r * i) mod (?n - 1)) = buffer_m m ! i" if i: "0 < i" "i < ?n - 1" for i
  proof -
    have n2: "2 \<le> ?n" using i by simp
    then have r: "?r \<noteq> 0" using wf by (auto simp: wf_matrix_def split: if_splits)
    with wf have rc: "?r * ?c = ?n" by (simp add: wf_matrix_def)
    have lt: "(?r * i) mod (?n - 1) < ?n - 1" using i by simp
    then have "?q ((?r * i) mod (?n - 1)) = (?c * ((?r * i) mod (?n - 1))) mod (?n - 1)"
      by (simp add: source_idx_def)
    also have "\<dots> = i"
      using rc i(2) n2 by (intro mult_mod_pred) (simp_all add: mult.commute)
    finally show ?thesis using el[of "(?r * i) mod (?n - 1)"] lt by simp
  qed
  have fixed: "buf' ! 0 = buffer_m m ! 0 \<and> buf' ! (?n - 1) = buffer_m m ! (?n - 1)" if "0 < ?n"
  proof -
    have "?q 0 = 0" "?q (?n - 1) = ?n - 1" by (simp_all add: source_idx_def)
    then show ?thesis using el[of 0] el[of "?n - 1"] that by simp
  qed
  have transposed: "element_at m row col = Inr (buffer_m m ! (?c * row + col)) \<and>
                    element_at ?m' col row = element_at m row col"
    if rc: "row < Rows m" "col < ?c" for row col
  proof -
    have r: "?r \<noteq> 0" and row: "row < ?r" using rc by (simp_all add: Rows_def)
    with wf have n: "?n = ?r * ?c" by (simp add: wf_matrix_def)
    have le1: "?r * col + row \<le> ?r * ?c - 1" by (rule flat_le_last[OF row rc(2)])
    have le2: "?c * row + col \<le> ?c * ?r - 1" by (rule flat_le_last[OF rc(2) row])
    have pos: "0 < ?n" using n r rc(2) by simp
    have lt1: "?r * col + row < ?n" using le1 pos n by linarith
    have n': "?n = ?c * ?r" using n by (simp add: mult.commute)
    have lt2: "?c * row + col < ?n" using le2 pos n' by linarith
    have f1: "flat_index ?m' col row = ?r * col + row"
      using lt1 n64 by (simp add: flat_index_def cols' size_wrap_id)
    have f2: "flat_index m row col = ?c * row + col"
      using lt2 n64 by (simp add: flat_index_def size_wrap_id)
    have "?q (?r * col + row) = ?c * row + col"
      unfolding n by (rule source_idx_transposed[OF row rc(2)])
    then have "buf' ! (?r * col + row) = buffer_m m ! (?c * row + col)"
      using el[OF lt1] by simp
    then show ?thesis
      using f1 f2 lt1 lt2 len by (simp add: element_at_def)
  qed
  have general: "\<exists>m'. Transpose m = Some m' \<and> Rows m' = Columns m \<and>
            length (buffer_m m') = length (buffer_m m) \<and>
            (\<forall>i. 0 < i \<and> i < length (buffer_m m) - 1 \<longrightarrow>
                 buffer_m m' ! ((Rows m * i) mod (length (buffer_m m) - 1)) = buffer_m m ! i) \<and>
            (0 < length (buffer_m m) \<longrightarrow>
                 buffer_m m' ! 0 = buffer_m m ! 0 \<and>
                 buffer_m m' ! (length (buffer_m m) - 1) = buffer_m m ! (length (buffer_m m) - 1)) \<and>
            (\<forall>row col. row < Rows m \<and> col < Columns m \<longrightarrow>
                 element_at m row col = Inr (buffer_m m ! (Columns m * row + col)) \<and>
                 element_at m' col row = element_at m row col)"
    using tr len moved fixed transposed
    by (intro exI[of _ ?m']) (simp add: Rows_def)
  have l1: "Matrix_of_rows [[1, 2, 3], [4, 5, 6 :: real]] = Inr \<lparr>rows_m = 2, buffer_m = [1, 2, 3, 4, 5, 6]\<rparr>"
    by (simp add: Matrix_of_rows_def)
  have l2: "Transpose \<lparr>rows_m = 2, buffer_m = [1, 2, 3, 4, 5, 6 :: real]\<rparr> =
           Some \<lparr>rows_m = 3, buffer_m = [1, 4, 2, 5, 3, 6]\<rparr>"
    by (simp add: Transpose_def Transpose_loop.simps Transpose_cycle.simps next_idx_def
          swap_at_def size_wrap_def Rows_def Columns_def Let_def)
  have l3: "Matrix_of_rows [[1, 4], [2, 5], [3, 6 :: real]] = Inr \<lparr>rows_m = 3, buffer_m = [1, 4, 2, 5, 3, 6]\<rparr>"
    by (simp add: Matrix_of_rows_def)
  from general l1 l2 l3 show ?thesis by blast
qed

theorem Transpose_moves_elements_witness:
  "wf_matrix \<lparr>rows_m = 2, buffer_m = [1, 2, 3, 4, 5, 6 :: real]\<rparr> \<and>
   Rows \<lparr>rows_m = 2, buffer_m = [1, 2, 3, 4, 5, 6 :: real]\<rparr> *
     length (buffer_m \<lparr>rows_m = 2, buffer_m = [1, 2, 3, 4, 5, 6 :: real]\<rparr>) < 2 ^ 64 \<and>
   (\<exists>m'. Transpose \<lparr>rows_m = 2, buffer_m = [1, 2, 3, 4, 5, 6 :: real]\<rparr> = Some m' \<and>
         buffer_m m' ! ((2 * 4) mod 5) = 5 \<and> element_at m' 2 1 = Inr 6)"
proof -
  let ?m = "\<lparr>rows_m = 2, buffer_m = [1, 2, 3, 4, 5, 6 :: real]\<rparr>"
  have wf: "wf_matrix ?m" by (simp add: wf_matrix_def Columns_def)
  have small: "Rows ?m * length (buffer_m ?m) < 2 ^ 64" by (simp add: Rows_def)
  from Transpose_moves_elements[OF wf small] obtain m' where
    tr: "Transpose ?m = Some m'"
    and mv: "\<forall>i. 0 < i \<and> i < length (buffer_m ?m) - 1 \<longrightarrow>
                 buffer_m m' ! ((Rows ?m * i) mod (length (buffer_m ?m) - 1)) = buffer_m ?m ! i"
    and el: "\<forall>row col. row < Rows ?m \<and> col < Columns ?m \<longrightarrow>
                 element_at ?m row col = Inr (buffer_m ?m ! (Columns ?m * row + col)) \<and>
                 element_at m' col row = element_at ?m row col"
    by blast
  from mv[rule_format, of 4] have a: "buffer_m m' ! ((2 * 4) mod 5) = 5"
    by (simp add: Rows_def)
  from el[rule_format, of 1 2] have b: "element_at m' 2 1 = Inr 6"
    by (simp add: Rows_def Columns_def element_at_def flat_index_def size_wrap_def)
  from wf small tr a b show ?thesis by blast
qed

text \<open>
  C7. \<^verbatim>\<open>Transpose\<close> is an involution: for every matrix (with \<open>R * N < 2^64\<close> and
  \<open>C * N < 2^64\<close> for its \<open>R\<close> rows, \<open>C\<close> columns and \<open>N\<close> elements, so that no product of
  either transposition wraps) transposing twice ends and gives the matrix back, row count and
  buffer, so that the result compares equal to the original. The elements are only moved, never computed with, so this
  holds for every element type.
\<close>

theorem Transpose_involution:
  assumes wf: "wf_matrix m" and small: "Rows m * length (buffer_m m) < 2 ^ 64"
    and small_t: "Columns m * length (buffer_m m) < 2 ^ 64"
  shows "\<exists>m'. Transpose m = Some m' \<and> Transpose m' = Some m \<and>
           (\<exists>m''. Transpose m' = Some m'' \<and> operator_eq m'' m)"
proof -
  let ?n = "length (buffer_m m)" and ?r = "rows_m m" and ?c = "Columns m"
  from Transpose_correct[OF wf small] obtain buf' where
    tr: "Transpose m = Some \<lparr>rows_m = ?c, buffer_m = buf'\<rparr>" and len: "length buf' = ?n"
    and el: "\<And>x. x < ?n \<Longrightarrow> buf' ! x = buffer_m m ! source_idx ?c (?n - 1) x"
    by blast
  let ?m' = "\<lparr>rows_m = ?c, buffer_m = buf'\<rparr>"
  have cols': "Columns ?m' = ?r" and wf': "wf_matrix ?m'"
    using wf_matrix_transposed[OF wf len] by simp_all
  have small': "Rows ?m' * length (buffer_m ?m') < 2 ^ 64" using small_t len by (simp add: Rows_def)
  from Transpose_correct[OF wf' small'] obtain buf'' where
    tr': "Transpose ?m' = Some \<lparr>rows_m = ?r, buffer_m = buf''\<rparr>" and len': "length buf'' = ?n"
    and el': "\<And>x. x < ?n \<Longrightarrow> buf'' ! x = buf' ! source_idx ?r (?n - 1) x"
    using cols' len by auto
  have "buf'' = buffer_m m"
  proof (rule nth_equalityI)
    show "length buf'' = length (buffer_m m)" by (rule len')
  next
    fix x assume "x < length buf''"
    then have x: "x < ?n" using len' by simp
    then have r: "?r \<noteq> 0" using wf by (auto simp: wf_matrix_def split: if_splits)
    with wf have rc: "?r * ?c = ?n" by (simp add: wf_matrix_def)
    have inv: "source_idx ?c (?n - 1) (source_idx ?r (?n - 1) x) = x"
      by (rule source_idx_involution[OF rc x])
    have "source_idx ?r (?n - 1) x < ?n"
    proof (cases "x = ?n - 1")
      case True
      then show ?thesis using x by (simp add: source_idx_def)
    next
      case False
      then have "0 < ?n - 1" using x by simp
      then have "(?r * x) mod (?n - 1) < ?n - 1" by (rule mod_less_divisor)
      then have "(?r * x) mod (?n - 1) < ?n" by linarith
      then show ?thesis using False by (simp add: source_idx_def)
    qed
    then have "buf' ! source_idx ?r (?n - 1) x = buffer_m m ! x"
      using el inv by simp
    then show "buf'' ! x = buffer_m m ! x" using el'[OF x] by simp
  qed
  then have again: "Transpose ?m' = Some m" using tr' by simp
  then show ?thesis using tr by (simp add: operator_eq_def)
qed

theorem Transpose_involution_witness:
  "wf_matrix \<lparr>rows_m = 2, buffer_m = [1, 2, 3, 4, 5, 6 :: real]\<rparr> \<and>
   Rows \<lparr>rows_m = 2, buffer_m = [1, 2, 3, 4, 5, 6 :: real]\<rparr> *
     length (buffer_m \<lparr>rows_m = 2, buffer_m = [1, 2, 3, 4, 5, 6 :: real]\<rparr>) < 2 ^ 64 \<and>
   Columns \<lparr>rows_m = 2, buffer_m = [1, 2, 3, 4, 5, 6 :: real]\<rparr> *
     length (buffer_m \<lparr>rows_m = 2, buffer_m = [1, 2, 3, 4, 5, 6 :: real]\<rparr>) < 2 ^ 64 \<and>
   Transpose \<lparr>rows_m = 2, buffer_m = [1, 2, 3, 4, 5, 6 :: real]\<rparr> =
     Some \<lparr>rows_m = 3, buffer_m = [1, 4, 2, 5, 3, 6]\<rparr> \<and>
   Transpose \<lparr>rows_m = 3, buffer_m = [1, 4, 2, 5, 3, 6 :: real]\<rparr> =
     Some \<lparr>rows_m = 2, buffer_m = [1, 2, 3, 4, 5, 6]\<rparr>"
proof -
  let ?m = "\<lparr>rows_m = 2, buffer_m = [1, 2, 3, 4, 5, 6 :: real]\<rparr>"
  have wf: "wf_matrix ?m" by (simp add: wf_matrix_def Columns_def)
  have small: "Rows ?m * length (buffer_m ?m) < 2 ^ 64" by (simp add: Rows_def)
  have small_t: "Columns ?m * length (buffer_m ?m) < 2 ^ 64" by (simp add: Columns_def)
  have t: "Transpose ?m = Some \<lparr>rows_m = 3, buffer_m = [1, 4, 2, 5, 3, 6]\<rparr>"
    by (simp add: Transpose_def Transpose_loop.simps Transpose_cycle.simps next_idx_def
          swap_at_def size_wrap_def Rows_def Columns_def Let_def)
  from Transpose_involution[OF wf small small_t] t
  have "Transpose \<lparr>rows_m = 3, buffer_m = [1, 4, 2, 5, 3, 6 :: real]\<rparr> = Some ?m" by simp
  with wf small small_t t show ?thesis by blast
qed

section \<open>The Wilkinson shift\<close>

lemma GetWilkinsonShift_2x2:
  "GetWilkinsonShift Sign \<lparr>rows_m = 2, buffer_m = [m00, m01, m01, m11]\<rparr> =
     (if \<bar>(m00 - m11) / 2\<bar> + sqrt ((m00 - m11) / 2 * ((m00 - m11) / 2) + m01 * m01) = 0
      then Inl FloatDivisionByZero
      else Inr (m11 - (Sign ((m00 - m11) / 2) * m01 * m01) /
                  (\<bar>(m00 - m11) / 2\<bar> + sqrt ((m00 - m11) / 2 * ((m00 - m11) / 2) + m01 * m01))))"
  by (simp add: GetWilkinsonShift_def Rows_Columns_2x2 element_at_2x2 Let_def)

text \<open>
  C5. For every symmetric 2x2 matrix \<open>M = [[m00, m01], [m01, m11]]\<close> the result of
  \<^verbatim>\<open>GetWilkinsonShift\<close> is \<open>m11 - sign(d) * m01\<^sup>2 / c\<close> with \<open>d = (m00 - m11) / 2\<close> and
  \<open>c = |d| + sqrt (d\<^sup>2 + m01\<^sup>2)\<close>, where \<open>sign\<close> is \<^verbatim>\<open>utils::Sign\<close>; when \<open>c = 0\<close> the
  quotient of the formula and of the code is the floating-point \<open>0 / 0\<close>. In particular,
  when \<open>sign(0) = 0\<close>, the shift of \<open>[[2,1],[1,2]]\<close> is exactly \<open>2\<close>.
\<close>

theorem GetWilkinsonShift_formula:
  "Matrix_of_rows [[m00, m01], [m01, m11]] = Inr \<lparr>rows_m = 2, buffer_m = [m00, m01, m01, m11]\<rparr> \<and>
   GetWilkinsonShift Sign \<lparr>rows_m = 2, buffer_m = [m00, m01, m01, m11]\<rparr> =
     (let d = (m00 - m11) / 2;
          c = \<bar>d\<bar> + sqrt (d\<^sup>2 + m01\<^sup>2)
      in if c = 0 then Inl FloatDivisionByZero else Inr (m11 - Sign d * m01\<^sup>2 / c)) \<and>
   (Sign 0 = 0 \<longrightarrow>
      GetWilkinsonShift Sign \<lparr>rows_m = 2, buffer_m = [2, 1, 1, 2]\<rparr> = Inr 2)"
proof -
  have a: "Matrix_of_rows [[m00, m01], [m01, m11]] = Inr \<lparr>rows_m = 2, buffer_m = [m00, m01, m01, m11]\<rparr>"
    by (simp add: Matrix_of_rows_def)
  have b: "GetWilkinsonShift Sign \<lparr>rows_m = 2, buffer_m = [m00, m01, m01, m11]\<rparr> =
     (let d = (m00 - m11) / 2;
          c = \<bar>d\<bar> + sqrt (d\<^sup>2 + m01\<^sup>2)
      in if c = 0 then Inl FloatDivisionByZero else Inr (m11 - Sign d * m01\<^sup>2 / c))"
    by (simp add: GetWilkinsonShift_2x2 Let_def power2_eq_square mult.assoc)
  have c: "GetWilkinsonShift Sign \<lparr>rows_m = 2, buffer_m = [2, 1, 1, 2]\<rparr> = Inr 2" if "Sign 0 = 0"
    using that by (simp add: GetWilkinsonShift_2x2)
  from a b c show ?thesis by blast
qed

theorem GetWilkinsonShift_formula_witness:
  "sgn (0 :: real) = 0 \<and>
   GetWilkinsonShift sgn \<lparr>rows_m = 2, buffer_m = [2, 1, 1, 2]\<rparr> = Inr 2 \<and>
   GetWilkinsonShift sgn \<lparr>rows_m = 2, buffer_m = [144, 84, 84, 193]\<rparr> = Inr 256"
proof -
  have s0: "sgn (0 :: real) = 0" by simp
  have sq: "sqrt (30625 / 4) = 175 / 2"
    by (rule real_sqrt_unique) (simp_all add: power2_eq_square)
  have "(144 - 193) / 2 = (- 49 / 2 :: real)" by simp
  have "GetWilkinsonShift sgn \<lparr>rows_m = 2, buffer_m = [144, 84, 84, 193]\<rparr> = Inr 256"
    using GetWilkinsonShift_formula[of 144 84 193 sgn]
    by (simp add: Let_def power2_eq_square sq)
  with s0 GetWilkinsonShift_formula[of 2 1 2 sgn] show ?thesis by simp
qed

text \<open>
  C6. \<^verbatim>\<open>GetWilkinsonShift\<close> fails an assertion exactly when its input is not a matrix
  with two rows, two columns and \<open>M(0,1) = M(1,0)\<close>; on every input that is, no assertion
  fails.
\<close>

theorem GetWilkinsonShift_contract:
  "GetWilkinsonShift Sign m = Inl AssertionFailure \<longleftrightarrow>
     \<not> (Rows m = 2 \<and> Columns m = 2 \<and>
        (\<exists>x. element_at m 0 1 = Inr x \<and> element_at m 1 0 = Inr x))"
proof (cases "Rows m = 2 \<and> Columns m = 2")
  case False
  then show ?thesis by (auto simp: GetWilkinsonShift_def)
next
  case True
  then have r: "rows_m m = 2" by (simp add: Rows_def)
  with True have c: "length (buffer_m m) div 2 = 2"
    by (simp add: Columns_def)
  have len: "4 \<le> length (buffer_m m)"
  proof (rule ccontr)
    assume "\<not> 4 \<le> length (buffer_m m)"
    then have "length (buffer_m m) < 2 * 2" by simp
    then have "length (buffer_m m) div 2 < 2" by (simp only: div_less_iff_less_mult[OF pos2] Groups.mult_ac)
    with c show False by simp
  qed
  have f: "flat_index m 0 0 = 0" "flat_index m 0 1 = 1" "flat_index m 1 0 = 2" "flat_index m 1 1 = 3"
    using True by (simp_all add: flat_index_def size_wrap_def)
  have e: "element_at m 0 0 = Inr (buffer_m m ! 0)" "element_at m 0 1 = Inr (buffer_m m ! 1)"
    "element_at m 1 0 = Inr (buffer_m m ! 2)" "element_at m 1 1 = Inr (buffer_m m ! 3)"
  proof -
    have "0 < length (buffer_m m)" "Suc 0 < length (buffer_m m)" "2 < length (buffer_m m)"
      "3 < length (buffer_m m)" using len by linarith+
    then show "element_at m 0 0 = Inr (buffer_m m ! 0)" "element_at m 0 1 = Inr (buffer_m m ! 1)"
      "element_at m 1 0 = Inr (buffer_m m ! 2)" "element_at m 1 1 = Inr (buffer_m m ! 3)"
      using f by (simp_all add: element_at_def)
  qed
  show ?thesis
    using True e by (simp add: GetWilkinsonShift_def Let_def)
qed

theorem GetWilkinsonShift_contract_witness:
  "GetWilkinsonShift sgn \<lparr>rows_m = 2, buffer_m = [2, 1, 1, 2]\<rparr> \<noteq> Inl AssertionFailure \<and>
   Rows \<lparr>rows_m = 2, buffer_m = [2, 1, 1, 2 :: real]\<rparr> = 2 \<and>
   Columns \<lparr>rows_m = 2, buffer_m = [2, 1, 1, 2 :: real]\<rparr> = 2 \<and>
   element_at \<lparr>rows_m = 2, buffer_m = [2, 1, 1, 2 :: real]\<rparr> 0 1 = Inr 1 \<and>
   element_at \<lparr>rows_m = 2, buffer_m = [2, 1, 1, 2 :: real]\<rparr> 1 0 = Inr 1 \<and>
   GetWilkinsonShift sgn \<lparr>rows_m = 2, buffer_m = [2, 1, 3, 2]\<rparr> = Inl AssertionFailure \<and>
   GetWilkinsonShift sgn \<lparr>rows_m = 3, buffer_m = [2, 1, 1, 2, 0, 0]\<rparr> = Inl AssertionFailure"
  using GetWilkinsonShift_contract[of sgn "\<lparr>rows_m = 2, buffer_m = [2, 1, 1, 2]\<rparr>"]
    GetWilkinsonShift_contract[of sgn "\<lparr>rows_m = 2, buffer_m = [2, 1, 3, 2]\<rparr>"]
    GetWilkinsonShift_contract[of sgn "\<lparr>rows_m = 3, buffer_m = [2, 1, 1, 2, 0, 0]\<rparr>"]
  by (simp add: Rows_Columns_2x2 element_at_2x2 Rows_def)

section \<open>The shifted QR iteration\<close>

text \<open>
  \<^verbatim>\<open>Identity(n, v)\<close> is the \<open>n\<close> by \<open>n\<close> matrix with \<open>v\<close> on the diagonal and zero elsewhere,
  so that \<^verbatim>\<open>Identity(D.Rows(), shift)\<close> is \<open>shift * I\<close>.
\<close>

lemma diag_loop:
  assumes n: "0 < n" and small: "n * n < 2 ^ 64" and k: "k \<le> n"
  shows "for_loop [0..<k] (\<lambda>idx m. element_set m idx idx (replicate n v ! idx))
           \<lparr>rows_m = n, buffer_m = replicate (n * n) 0\<rparr> =
         Inr \<lparr>rows_m = n,
              buffer_m = map (\<lambda>j. if j div n = j mod n \<and> j div n < k then v else 0) [0..<n * n]\<rparr>"
  using k
proof (induction k)
  case 0
  have "map (\<lambda>j. 0) [0..<n * n] = replicate (n * n) (0::'a)"
    by (simp add: map_replicate_const)
  then show ?case by simp
next
  case (Suc k)
  let ?f = "\<lambda>k j. if j div n = j mod n \<and> j div n < k then v else 0"
  let ?m = "\<lparr>rows_m = n, buffer_m = map (?f k) [0..<n * n]\<rparr>"
  have kn: "k < n" using Suc.prems by simp
  have cols: "Columns ?m = n" using n by (simp add: Columns_def)
  have "n * k + k < n * k + n" using kn by simp
  also have "\<dots> = n * (k + 1)" by simp
  also have "\<dots> \<le> n * n" using kn by (intro mult_le_mono2) simp
  finally have pl: "n * k + k < n * n" .
  then have fl: "flat_index ?m k k = n * k + k"
    using small by (simp add: flat_index_def cols size_wrap_id)
  have dm: "(n * k + k) div n = k" "(n * k + k) mod n = k" using kn by simp_all
  have upd: "(map (?f k) [0..<n * n])[n * k + k := v] = map (?f (Suc k)) [0..<n * n]"
  proof (rule nth_equalityI)
    show "length ((map (?f k) [0..<n * n])[n * k + k := v]) = length (map (?f (Suc k)) [0..<n * n])"
      by simp
  next
    fix j assume "j < length ((map (?f k) [0..<n * n])[n * k + k := v])"
    then have j: "j < n * n" by simp
    show "(map (?f k) [0..<n * n])[n * k + k := v] ! j = map (?f (Suc k)) [0..<n * n] ! j"
    proof (cases "j = n * k + k")
      case True
      then show ?thesis using j dm by simp
    next
      case False
      have "\<not> (j div n = j mod n \<and> j div n = k)"
      proof
        assume a: "j div n = j mod n \<and> j div n = k"
        from a have d: "j div n = k" and m: "j mod n = k" by simp_all
        have "j = n * (j div n) + j mod n" by simp
        then have "j = n * k + k" unfolding d m .
        then show False using False by simp
      qed
      then have "?f (Suc k) j = ?f k j" by (auto simp: less_Suc_eq)
      then show ?thesis using j False by simp
    qed
  qed
  have step: "element_set ?m k k (replicate n v ! k) = Inr \<lparr>rows_m = n, buffer_m = map (?f (Suc k)) [0..<n * n]\<rparr>"
    using fl pl kn upd by (simp add: element_set_def)
  have "for_loop [0..<Suc k] (\<lambda>idx m. element_set m idx idx (replicate n v ! idx))
           \<lparr>rows_m = n, buffer_m = replicate (n * n) 0\<rparr> =
        and_then (for_loop [0..<k] (\<lambda>idx m. element_set m idx idx (replicate n v ! idx))
           \<lparr>rows_m = n, buffer_m = replicate (n * n) 0\<rparr>)
          (for_loop [k] (\<lambda>idx m. element_set m idx idx (replicate n v ! idx)))"
    by (simp add: for_loop_append)
  also have "\<dots> = element_set ?m k k (replicate n v ! k)"
    using Suc.IH kn by (simp add: and_then_def split: sum.splits)
  finally show ?case using step by simp
qed

lemma Identity_diagonal:
  assumes "0 < n" and "n * n < 2 ^ 64"
  shows "Identity n v =
         Inr \<lparr>rows_m = n, buffer_m = map (\<lambda>j. if j div n = j mod n then v else 0) [0..<n * n]\<rparr>"
proof -
  have "(\<lambda>j. if j div n = j mod n \<and> j div n < n then v else 0) =
        (\<lambda>j. if j div n = j mod n then v else 0)"
    using assms(1) by (intro ext) auto
  then show ?thesis
    using assms diag_loop[OF assms, of n v]
    by (simp add: Identity_def Matrix_diag_def Rows_def size_wrap_id)
qed

lemma spec_loop_last:
  "i \<le> n \<Longrightarrow>
   spec_loop H RZ shift_I i (Suc n) st =
   and_then (spec_loop H RZ shift_I i n st) (spec_iteration H RZ shift_I)"
proof (induction "n - i" arbitrary: i st)
  case 0
  then have "i = n" by simp
  then show ?case
    by (simp add: spec_loop.simps[of H RZ shift_I n] spec_loop.simps[of H RZ shift_I "Suc n"]
        split: sum.splits)
next
  case (Suc k)
  then have lt: "i < n" and k: "k = n - (i + 1)" and le: "i + 1 \<le> n" by simp_all
  show ?case
  proof (cases "spec_iteration H RZ shift_I st")
    case (Inl e)
    then show ?thesis using lt
      by (simp add: spec_loop.simps[of H RZ shift_I i])
  next
    case (Inr st')
    have "spec_loop H RZ shift_I i (Suc n) st = spec_loop H RZ shift_I (i + 1) (Suc n) st'"
      using lt Inr by (simp add: spec_loop.simps[of H RZ shift_I i])
    also have "\<dots> = and_then (spec_loop H RZ shift_I (i + 1) n st') (spec_iteration H RZ shift_I)"
      by (rule Suc.hyps(1)[OF k le])
    also have "spec_loop H RZ shift_I (i + 1) n st' = spec_loop H RZ shift_I i n st"
      using lt Inr by (simp add: spec_loop.simps[of H RZ shift_I i])
    finally show ?thesis .
  qed
qed

text \<open>
  C4. \<^verbatim>\<open>GetRealSpecDecomposition\<close> runs its body exactly \<^verbatim>\<open>it_cnt\<close> times, with no
  convergence test and no early exit: with no iteration it returns the copy of the input and
  the identity, and the result of \<open>n + 1\<close> iterations is the result \<open>{D, transform}\<close> of
  \<open>n\<close> iterations followed, whatever that result is, by one more body: factor
  \<open>D - shift_I\<close> by \<^verbatim>\<open>HouseholderQR\<close> into \<open>(Q, R)\<close>, set \<open>D\<close> to \<open>R * Q + shift_I\<close>,
  multiply \<open>transform\<close> on the right by \<open>Q\<close>, round the zeroes of \<open>D\<close>; the pair
  \<open>{D, transform}\<close> is returned. An assertion that fails on the way aborts the whole call.
  Here \<open>shift_I\<close> is \<^verbatim>\<open>Identity(D.Rows(), shift)\<close>.
\<close>

theorem GetRealSpecDecomposition_fixed_iterations:
  "GetRealSpecDecomposition IsHermitian HouseholderQR RoundZeroes matrix shift 0 =
     (if \<not> IsHermitian matrix then Inl AssertionFailure
      else and_then (Identity (Rows matrix) shift) (\<lambda>shift_I.
           and_then (Identity (Rows matrix) 1) (\<lambda>transform.
           Inr \<lparr>pair_D = matrix, pair_Q = transform\<rparr>))) \<and>
   GetRealSpecDecomposition IsHermitian HouseholderQR RoundZeroes matrix shift (Suc n) =
     and_then (GetRealSpecDecomposition IsHermitian HouseholderQR RoundZeroes matrix shift n) (\<lambda>prev.
     and_then (Identity (Rows matrix) shift) (\<lambda>shift_I.
     and_then (operator_minus (pair_D prev) shift_I) (\<lambda>A.
     and_then (HouseholderQR A) (\<lambda>(Q, R).
     and_then (operator_mul R Q) (\<lambda>RQ.
     and_then (operator_plus RQ shift_I) (\<lambda>D'.
     and_then (operator_mul (pair_Q prev) Q) (\<lambda>transform'.
     Inr \<lparr>pair_D = RoundZeroes D', pair_Q = transform'\<rparr>)))))))"
proof (cases "IsHermitian matrix")
  case False
  then show ?thesis by (simp add: GetRealSpecDecomposition_def)
next
  case True
  show ?thesis
  proof (cases "Identity (Rows matrix) shift")
    case (Inl e)
    then show ?thesis using True by (simp add: GetRealSpecDecomposition_def Copy_def)
  next
    case shift_I: (Inr shift_I)
    show ?thesis
    proof (cases "Identity (Rows matrix) (1::'a)")
      case (Inl e)
      then show ?thesis using True shift_I by (simp add: GetRealSpecDecomposition_def Copy_def)
    next
      case tr: (Inr transform)
      have zero: "GetRealSpecDecomposition IsHermitian HouseholderQR RoundZeroes matrix shift 0 =
                  Inr \<lparr>pair_D = matrix, pair_Q = transform\<rparr>"
        using True shift_I tr
        by (simp add: GetRealSpecDecomposition_def Copy_def spec_loop.simps[of _ _ _ 0 0])
      have run: "GetRealSpecDecomposition IsHermitian HouseholderQR RoundZeroes matrix shift k =
            and_then (spec_loop HouseholderQR RoundZeroes shift_I 0 k (matrix, transform))
              (\<lambda>st. Inr \<lparr>pair_D = fst st, pair_Q = snd st\<rparr>)" for k
        using True shift_I tr by (simp add: GetRealSpecDecomposition_def Copy_def)
      have step: "GetRealSpecDecomposition IsHermitian HouseholderQR RoundZeroes matrix shift (Suc n) =
         and_then (GetRealSpecDecomposition IsHermitian HouseholderQR RoundZeroes matrix shift n) (\<lambda>prev.
         and_then (Identity (Rows matrix) shift) (\<lambda>shift_I.
         and_then (operator_minus (pair_D prev) shift_I) (\<lambda>A.
         and_then (HouseholderQR A) (\<lambda>(Q, R).
         and_then (operator_mul R Q) (\<lambda>RQ.
         and_then (operator_plus RQ shift_I) (\<lambda>D'.
         and_then (operator_mul (pair_Q prev) Q) (\<lambda>transform'.
         Inr \<lparr>pair_D = RoundZeroes D', pair_Q = transform'\<rparr>)))))))"
      proof (cases "spec_loop HouseholderQR RoundZeroes shift_I 0 n (matrix, transform)")
        case (Inl e)
        then show ?thesis
          by (simp add: run spec_loop_last)
      next
        case (Inr st)
        obtain D transform0 where st: "st = (D, transform0)" by (cases st)
        show ?thesis
          using Inr st shift_I
          by (simp add: run spec_loop_last spec_iteration_def operator_mul_assign_def and_then_assoc
              split: sum.splits prod.splits)
             (auto simp: and_then_def split: sum.splits prod.splits)
      qed
      from zero step True shift_I tr show ?thesis by simp
    qed
  qed
qed

text \<open>
  One iteration on the diagonal matrix \<open>[[5,0],[0,3]]\<close> with shift \<open>0\<close>, where the QR
  factorization of the diagonal matrix is \<open>Q = I\<close>, \<open>R = D\<close>: the matrix is unchanged and
  the transform is the identity.
\<close>

theorem GetRealSpecDecomposition_fixed_iterations_witness:
  "GetRealSpecDecomposition (\<lambda>A. True)
     (\<lambda>A. Inr (\<lparr>rows_m = 2, buffer_m = [1, 0, 0, 1]\<rparr>, A)) (\<lambda>A. A)
     \<lparr>rows_m = 2, buffer_m = [5, 0, 0, 3 :: real]\<rparr> 0 (Suc 0) =
   Inr \<lparr>pair_D = \<lparr>rows_m = 2, buffer_m = [5, 0, 0, 3]\<rparr>,
        pair_Q = \<lparr>rows_m = 2, buffer_m = [1, 0, 0, 1]\<rparr>\<rparr>"
  using GetRealSpecDecomposition_fixed_iterations
    [of "\<lambda>A. True" "\<lambda>A. Inr (\<lparr>rows_m = 2, buffer_m = [1, 0, 0, 1]\<rparr>, A)" "\<lambda>A. A"
        "\<lparr>rows_m = 2, buffer_m = [5, 0, 0, 3 :: real]\<rparr>" 0 0]
  by (simp add: Rows_def Identity_2 operator_minus_2x2 operator_mul_2x2 operator_plus_2x2)

section \<open>The sweep of the bidiagonal QR algorithm\<close>

lemma givens_coefficients_first: "givens_coefficients (- 112) 84 = (- 4 / 5, 3 / 5)"
proof -
  have "sqrt 19600 = 140" by (rule real_sqrt_unique) simp_all
  then show ?thesis by (simp add: givens_coefficients_def)
qed

lemma givens_coefficients_second: "givens_coefficients (- (27 / 5)) (36 / 5) = (- 3 / 5, 4 / 5)"
proof -
  have "sqrt 81 = 9" by (rule real_sqrt_unique) simp_all
  then show ?thesis by (simp add: givens_coefficients_def)
qed

lemma GetWilkinsonShift_BB:
  "GetWilkinsonShift sgn \<lparr>rows_m = 2, buffer_m = [144, 84, 84, 193]\<rparr> = Inr 256"
proof -
  have sq: "sqrt (30625 / 4) = 175 / 2"
    by (rule real_sqrt_unique) (simp_all add: power2_eq_square)
  show ?thesis by (simp add: GetWilkinsonShift_2x2 sq)
qed

lemma sweep_step_example:
  "sweep_step GivensLeftRotation_spec GivensRightRotation_spec 256 0
     (\<lparr>rows_m = 2, buffer_m = [1, 0, 0, 1]\<rparr>,
      \<lparr>rows_m = 2, buffer_m = [12, 7, 0, 12]\<rparr>,
      \<lparr>rows_m = 2, buffer_m = [1, 0, 0, 1]\<rparr>) =
   Inr (\<lparr>rows_m = 2, buffer_m = [- 3 / 5, - 4 / 5, 4 / 5, - 3 / 5]\<rparr>,
        \<lparr>rows_m = 2, buffer_m = [9, 0, 0, 16]\<rparr>,
        \<lparr>rows_m = 2, buffer_m = [- 4 / 5, 3 / 5, - 3 / 5, - 4 / 5]\<rparr>)"
  by (simp add: sweep_step_def Rows_Columns_2x2 element_at_2x2 GivensLeftRotation_spec_2x2
      GivensRightRotation_spec_2x2 givens_coefficients_first givens_coefficients_second)

lemma sweep_step_example_idle:
  "sweep_step GivensLeftRotation_spec GivensRightRotation_spec shift (Suc 0)
     (U, \<lparr>rows_m = 2, buffer_m = [a, b, c, d]\<rparr>, VT) =
   Inr (U, \<lparr>rows_m = 2, buffer_m = [a, b, c, d]\<rparr>, VT)"
  by (simp add: sweep_step_def Rows_Columns_2x2)

lemma sweep_step_as_worded_example:
  "sweep_step_as_worded GivensLeftRotation_spec GivensRightRotation_spec 256 0
     (\<lparr>rows_m = 2, buffer_m = [1, 0, 0, 1]\<rparr>,
      \<lparr>rows_m = 2, buffer_m = [12, 7, 0, 12]\<rparr>,
      \<lparr>rows_m = 2, buffer_m = [1, 0, 0, 1]\<rparr>) =
   Inr (\<lparr>rows_m = 2, buffer_m = [- 3 / 5, 4 / 5, - 4 / 5, - 3 / 5]\<rparr>,
        \<lparr>rows_m = 2, buffer_m = [9, 0, 0, 16]\<rparr>,
        \<lparr>rows_m = 2, buffer_m = [- 4 / 5, - 3 / 5, 3 / 5, - 4 / 5]\<rparr>)"
  by (simp add: sweep_step_as_worded_def Rows_Columns_2x2 element_at_2x2 GivensLeftRotation_spec_2x2
      GivensRightRotation_spec_2x2 givens_coefficients_first givens_coefficients_second)

lemma sweep_example:
  "sweep sgn GetSubmatrix_spec (RoundZeroes_spec (1 / 10000000000))
     GivensLeftRotation_spec GivensRightRotation_spec 2 2 2
     (\<lparr>rows_m = 2, buffer_m = [1, 0, 0, 1]\<rparr>,
      \<lparr>rows_m = 2, buffer_m = [12, 7, 0, 12]\<rparr>,
      \<lparr>rows_m = 2, buffer_m = [1, 0, 0, 1]\<rparr>) =
   Inr (\<lparr>rows_m = 2, buffer_m = [- 3 / 5, - 4 / 5, 4 / 5, - 3 / 5]\<rparr>,
        \<lparr>rows_m = 2, buffer_m = [9, 0, 0, 16]\<rparr>,
        \<lparr>rows_m = 2, buffer_m = [- 4 / 5, 3 / 5, - 3 / 5, - 4 / 5]\<rparr>)"
proof -
  have w: "size_wrap 18446744073709551616 = 0" by (simp add: size_wrap_def)
  show ?thesis
    by (simp add: sweep_def w GetSubmatrix_spec_2x2 Matrix_square_2 element_at_2x2 element_set_2x2
        GetWilkinsonShift_BB upt_0_2 sweep_step_example sweep_step_example_idle RoundZeroes_spec_def)
qed

lemma BidiagonalAlgorithmQR_example:
  "BidiagonalAlgorithmQR sgn GetSubmatrix_spec (RoundZeroes_spec (1 / 10000000000))
     GivensLeftRotation_spec GivensRightRotation_spec \<lparr>rows_m = 2, buffer_m = [12, 7, 0, 12]\<rparr> 1 =
   Inr \<lparr>basis_U = \<lparr>rows_m = 2, buffer_m = [- 3 / 5, - 4 / 5, 4 / 5, - 3 / 5]\<rparr>,
        basis_D = \<lparr>rows_m = 2, buffer_m = [9, 0, 0, 16]\<rparr>,
        basis_VT = \<lparr>rows_m = 2, buffer_m = [- 4 / 5, 3 / 5, - 3 / 5, - 4 / 5]\<rparr>\<rparr>"
  by (simp add: BidiagonalAlgorithmQR_def Rows_Columns_2x2 Identity_2 sweep_example Let_def)

lemma BidiagonalAlgorithmQR_example_product:
  "and_then (operator_mul \<lparr>rows_m = 2, buffer_m = [- 3 / 5, - 4 / 5, 4 / 5, - 3 / 5]\<rparr>
                          \<lparr>rows_m = 2, buffer_m = [9, 0, 0, 16]\<rparr>)
     (\<lambda>US. operator_mul US \<lparr>rows_m = 2, buffer_m = [- 4 / 5, 3 / 5, - 3 / 5, - 4 / 5]\<rparr>) =
   Inr \<lparr>rows_m = 2, buffer_m = [12, 7, 0, 12 :: real]\<rparr>"
  by (simp add: operator_mul_2x2)

lemma sweep_step_characterisation:
  "sweep_step GivensLeftRotation GivensRightRotation shift i (U, S, VT) = Inr (U', S', VT') \<longleftrightarrow>
     (\<exists>S1.
        (if i + 1 < Columns S
         then \<exists>f_elem s_elem.
                (if 0 < i
                 then element_at S (i - 1) i = Inr f_elem \<and> element_at S (i - 1) (i + 1) = Inr s_elem
                 else \<exists>s00 s01. element_at S 0 0 = Inr s00 \<and> element_at S 0 1 = Inr s01 \<and>
                        f_elem = s00 * s00 - shift \<and> s_elem = s01 * s00) \<and>
                GivensLeftRotation VT i (i + 1) f_elem s_elem = Inr VT' \<and>
                GivensRightRotation S i (i + 1) f_elem s_elem = Inr S1
         else VT' = VT \<and> S1 = S) \<and>
        (if i + 1 < Rows S1
         then \<exists>sii sji. element_at S1 i i = Inr sii \<and> element_at S1 (i + 1) i = Inr sji \<and>
                GivensRightRotation U i (i + 1) sii sji = Inr U' \<and>
                GivensLeftRotation S1 i (i + 1) sii sji = Inr S'
         else U' = U \<and> S' = S1))"
proof -
  let ?c1 = "i + 1 < Columns S"
  let ?pair = "\<lambda>f_elem s_elem.
                (if 0 < i
                 then element_at S (i - 1) i = Inr f_elem \<and> element_at S (i - 1) (i + 1) = Inr s_elem
                 else \<exists>s00 s01. element_at S 0 0 = Inr s00 \<and> element_at S 0 1 = Inr s01 \<and>
                        f_elem = s00 * s00 - shift \<and> s_elem = s01 * s00)"
  let ?first = "if ?c1 then
             and_then (if 0 < i then element_at S (i - 1) i
                       else and_then (element_at S 0 0) (\<lambda>s00. Inr (s00 * s00 - shift))) (\<lambda>f_elem.
             and_then (if 0 < i then element_at S (i - 1) (i + 1)
                       else and_then (element_at S 0 1) (\<lambda>s01.
                            and_then (element_at S 0 0) (\<lambda>s00. Inr (s01 * s00)))) (\<lambda>s_elem.
             and_then (GivensLeftRotation VT i (i + 1) f_elem s_elem) (\<lambda>VT.
             and_then (GivensRightRotation S i (i + 1) f_elem s_elem) (\<lambda>S.
             Inr (S, VT)))))
           else Inr (S, VT)"
  let ?second = "\<lambda>S VT.
             if i + 1 < Rows S then
               and_then (element_at S i i) (\<lambda>sii.
               and_then (element_at S (i + 1) i) (\<lambda>sji.
               and_then (GivensRightRotation U i (i + 1) sii sji) (\<lambda>U.
               and_then (GivensLeftRotation S i (i + 1) sii sji) (\<lambda>S.
               Inr (U, S, VT)))))
             else Inr (U, S, VT)"
  have first: "?first = Inr (S1, VT1) \<longleftrightarrow>
        (if ?c1
         then \<exists>f_elem s_elem. ?pair f_elem s_elem \<and>
                GivensLeftRotation VT i (i + 1) f_elem s_elem = Inr VT1 \<and>
                GivensRightRotation S i (i + 1) f_elem s_elem = Inr S1
         else VT1 = VT \<and> S1 = S)" for S1 VT1
  proof (cases ?c1)
    case False
    then show ?thesis by auto
  next
    case c1: True
    show ?thesis
    proof (cases "0 < i")
      case True
      with c1 show ?thesis by (auto simp: and_then_eq_Inr)
    next
      case False
      with c1 show ?thesis by (auto simp: and_then_eq_Inr)
    qed
  qed
  have second: "?second S1 VT1 = Inr (U', S', VT') \<longleftrightarrow>
        VT' = VT1 \<and>
        (if i + 1 < Rows S1
         then \<exists>sii sji. element_at S1 i i = Inr sii \<and> element_at S1 (i + 1) i = Inr sji \<and>
                GivensRightRotation U i (i + 1) sii sji = Inr U' \<and>
                GivensLeftRotation S1 i (i + 1) sii sji = Inr S'
         else U' = U \<and> S' = S1)" for S1 VT1
    by (cases "i + 1 < Rows S1") (auto simp: and_then_eq_Inr)
  have "sweep_step GivensLeftRotation GivensRightRotation shift i (U, S, VT) = Inr (U', S', VT') \<longleftrightarrow>
        (\<exists>S1 VT1. ?first = Inr (S1, VT1) \<and> ?second S1 VT1 = Inr (U', S', VT'))"
    unfolding sweep_step_def by (simp add: and_then_eq_Inr)
  also have "\<dots> \<longleftrightarrow> (\<exists>S1. ?first = Inr (S1, VT') \<and>
        (if i + 1 < Rows S1
         then \<exists>sii sji. element_at S1 i i = Inr sii \<and> element_at S1 (i + 1) i = Inr sji \<and>
                GivensRightRotation U i (i + 1) sii sji = Inr U' \<and>
                GivensLeftRotation S1 i (i + 1) sii sji = Inr S'
         else U' = U \<and> S' = S1))"
    unfolding second by blast
  finally show ?thesis unfolding first .
qed

text \<open>
  C3, as the code has it. In every sweep of \<^verbatim>\<open>BidiagonalAlgorithmQR\<close> the loop runs its
  body for \<open>i = 0, 1, ...\<close> up to \<open>size - 1\<close> in this order, and the body does exactly this,
  succeeding exactly when each step does. If column \<open>i + 1\<close> exists, the rotation pair is
  \<open>f = S(0,0)\<^sup>2 - shift\<close>, \<open>s = S(0,1) * S(0,0)\<close> when \<open>i = 0\<close> and \<open>f = S(i-1,i)\<close>,
  \<open>s = S(i-1,i+1)\<close> when \<open>i > 0\<close>; with this pair the \<^emph>\<open>left\<close> (row) rotation is applied to
  \<open>VT\<close> and the right (column) rotation to \<open>S\<close>. If row \<open>i + 1\<close> exists, then with the
  pair \<open>(S(i,i), S(i+1,i))\<close> of the current \<open>S\<close> the \<^emph>\<open>right\<close> (column) rotation is applied
  to \<open>U\<close> and the left (row) rotation to \<open>S\<close>.
\<close>

theorem sweep_step_rotations:
  "(sweep_step GivensLeftRotation GivensRightRotation shift i (U, S, VT) = Inr (U', S', VT') \<longleftrightarrow>
     (\<exists>S1.
        (if i + 1 < Columns S
         then \<exists>f_elem s_elem.
                (if 0 < i
                 then element_at S (i - 1) i = Inr f_elem \<and> element_at S (i - 1) (i + 1) = Inr s_elem
                 else \<exists>s00 s01. element_at S 0 0 = Inr s00 \<and> element_at S 0 1 = Inr s01 \<and>
                        f_elem = s00 * s00 - shift \<and> s_elem = s01 * s00) \<and>
                GivensLeftRotation VT i (i + 1) f_elem s_elem = Inr VT' \<and>
                GivensRightRotation S i (i + 1) f_elem s_elem = Inr S1
         else VT' = VT \<and> S1 = S) \<and>
        (if i + 1 < Rows S1
         then \<exists>sii sji. element_at S1 i i = Inr sii \<and> element_at S1 (i + 1) i = Inr sji \<and>
                GivensRightRotation U i (i + 1) sii sji = Inr U' \<and>
                GivensLeftRotation S1 i (i + 1) sii sji = Inr S'
         else U' = U \<and> S' = S1))) \<and>
   for_loop [0..<Suc n] (sweep_step GivensLeftRotation GivensRightRotation shift) st =
     and_then (for_loop [0..<n] (sweep_step GivensLeftRotation GivensRightRotation shift) st)
       (sweep_step GivensLeftRotation GivensRightRotation shift n)"
proof -
  have "for_loop [n] (sweep_step GivensLeftRotation GivensRightRotation shift) =
        sweep_step GivensLeftRotation GivensRightRotation shift n"
    by (rule ext) (simp add: and_then_def split: sum.splits)
  then have "for_loop [0..<Suc n] (sweep_step GivensLeftRotation GivensRightRotation shift) st =
     and_then (for_loop [0..<n] (sweep_step GivensLeftRotation GivensRightRotation shift) st)
       (sweep_step GivensLeftRotation GivensRightRotation shift n)"
    by (simp add: for_loop_append)
  with sweep_step_characterisation show ?thesis by blast
qed

text \<open>
  The first body of the first sweep on the bidiagonal matrix \<open>[[12,7],[0,12]]\<close>, whose
  Wilkinson shift is \<open>256\<close>, with the rotations as the specification describes them.
\<close>

theorem sweep_step_rotations_witness:
  "GivensLeftRotation_spec \<lparr>rows_m = 2, buffer_m = [1, 0, 0, 1]\<rparr> 0 1 (12 * 12 - 256) (7 * 12) =
     Inr \<lparr>rows_m = 2, buffer_m = [- 4 / 5, 3 / 5, - 3 / 5, - 4 / 5]\<rparr> \<and>
   GivensRightRotation_spec \<lparr>rows_m = 2, buffer_m = [12, 7, 0, 12]\<rparr> 0 1 (12 * 12 - 256) (7 * 12) =
     Inr \<lparr>rows_m = 2, buffer_m = [- 27 / 5, - 64 / 5, 36 / 5, - 48 / 5]\<rparr> \<and>
   GivensRightRotation_spec \<lparr>rows_m = 2, buffer_m = [1, 0, 0, 1]\<rparr> 0 1 (- 27 / 5) (36 / 5) =
     Inr \<lparr>rows_m = 2, buffer_m = [- 3 / 5, - 4 / 5, 4 / 5, - 3 / 5]\<rparr> \<and>
   GivensLeftRotation_spec \<lparr>rows_m = 2, buffer_m = [- 27 / 5, - 64 / 5, 36 / 5, - 48 / 5]\<rparr> 0 1
       (- 27 / 5) (36 / 5) =
     Inr \<lparr>rows_m = 2, buffer_m = [9, 0, 0, 16]\<rparr> \<and>
   sweep_step GivensLeftRotation_spec GivensRightRotation_spec 256 0
     (\<lparr>rows_m = 2, buffer_m = [1, 0, 0, 1]\<rparr>,
      \<lparr>rows_m = 2, buffer_m = [12, 7, 0, 12]\<rparr>,
      \<lparr>rows_m = 2, buffer_m = [1, 0, 0, 1]\<rparr>) =
   Inr (\<lparr>rows_m = 2, buffer_m = [- 3 / 5, - 4 / 5, 4 / 5, - 3 / 5]\<rparr>,
        \<lparr>rows_m = 2, buffer_m = [9, 0, 0, 16]\<rparr>,
        \<lparr>rows_m = 2, buffer_m = [- 4 / 5, 3 / 5, - 3 / 5, - 4 / 5]\<rparr>)"
proof -
  let ?I = "\<lparr>rows_m = 2, buffer_m = [1, 0, 0, 1 :: real]\<rparr>"
  let ?B = "\<lparr>rows_m = 2, buffer_m = [12, 7, 0, 12 :: real]\<rparr>"
  let ?S1 = "\<lparr>rows_m = 2, buffer_m = [- 27 / 5, - 64 / 5, 36 / 5, - 48 / 5 :: real]\<rparr>"
  have r1: "GivensLeftRotation_spec ?I 0 1 (12 * 12 - 256) (7 * 12) =
     Inr \<lparr>rows_m = 2, buffer_m = [- 4 / 5, 3 / 5, - 3 / 5, - 4 / 5]\<rparr>"
    by (simp add: GivensLeftRotation_spec_2x2 givens_coefficients_first)
  have r2: "GivensRightRotation_spec ?B 0 1 (12 * 12 - 256) (7 * 12) = Inr ?S1"
    by (simp add: GivensRightRotation_spec_2x2 givens_coefficients_first)
  have r3: "GivensRightRotation_spec ?I 0 1 (- 27 / 5) (36 / 5) =
     Inr \<lparr>rows_m = 2, buffer_m = [- 3 / 5, - 4 / 5, 4 / 5, - 3 / 5]\<rparr>"
    by (simp add: GivensRightRotation_spec_2x2 givens_coefficients_second)
  have r4: "GivensLeftRotation_spec ?S1 0 1 (- 27 / 5) (36 / 5) =
     Inr \<lparr>rows_m = 2, buffer_m = [9, 0, 0, 16]\<rparr>"
    by (simp add: GivensLeftRotation_spec_2x2 givens_coefficients_second)
  have e: "element_at ?B 0 0 = Inr 12" "element_at ?B 0 1 = Inr 7"
    "element_at ?S1 0 0 = Inr (- 27 / 5)" "element_at ?S1 1 0 = Inr (36 / 5)"
    by (simp_all add: element_at_2x2)
  have c: "Columns ?B = 2" "Rows ?S1 = 2" by (simp_all add: Rows_Columns_2x2)
  have "sweep_step GivensLeftRotation_spec GivensRightRotation_spec 256 0 (?I, ?B, ?I) =
   Inr (\<lparr>rows_m = 2, buffer_m = [- 3 / 5, - 4 / 5, 4 / 5, - 3 / 5]\<rparr>,
        \<lparr>rows_m = 2, buffer_m = [9, 0, 0, 16]\<rparr>,
        \<lparr>rows_m = 2, buffer_m = [- 4 / 5, 3 / 5, - 3 / 5, - 4 / 5]\<rparr>)"
  proof (rule sweep_step_rotations[THEN conjunct1, THEN iffD2], rule exI[of _ ?S1], intro conjI)
    show "if 0 + 1 < Columns ?B
      then \<exists>f_elem s_elem.
             (if 0 < (0::nat)
              then element_at ?B (0 - 1) 0 = Inr f_elem \<and> element_at ?B (0 - 1) (0 + 1) = Inr s_elem
              else \<exists>s00 s01. element_at ?B 0 0 = Inr s00 \<and> element_at ?B 0 1 = Inr s01 \<and>
                     f_elem = s00 * s00 - 256 \<and> s_elem = s01 * s00) \<and>
             GivensLeftRotation_spec ?I 0 (0 + 1) f_elem s_elem =
               Inr \<lparr>rows_m = 2, buffer_m = [- 4 / 5, 3 / 5, - 3 / 5, - 4 / 5]\<rparr> \<and>
             GivensRightRotation_spec ?B 0 (0 + 1) f_elem s_elem = Inr ?S1
      else \<lparr>rows_m = 2, buffer_m = [- 4 / 5, 3 / 5, - 3 / 5, - 4 / 5]\<rparr> = ?I \<and> ?S1 = ?B"
      using r1 r2 e(1,2) c(1) by simp
    show "if 0 + 1 < Rows ?S1
      then \<exists>sii sji. element_at ?S1 0 0 = Inr sii \<and> element_at ?S1 (0 + 1) 0 = Inr sji \<and>
             GivensRightRotation_spec ?I 0 (0 + 1) sii sji =
               Inr \<lparr>rows_m = 2, buffer_m = [- 3 / 5, - 4 / 5, 4 / 5, - 3 / 5]\<rparr> \<and>
             GivensLeftRotation_spec ?S1 0 (0 + 1) sii sji = Inr \<lparr>rows_m = 2, buffer_m = [9, 0, 0, 16]\<rparr>
      else \<lparr>rows_m = 2, buffer_m = [- 3 / 5, - 4 / 5, 4 / 5, - 3 / 5]\<rparr> = ?I \<and>
           \<lparr>rows_m = 2, buffer_m = [9, 0, 0, 16]\<rparr> = ?S1"
    proof -
      have "\<exists>sii sji. element_at ?S1 0 0 = Inr sii \<and> element_at ?S1 (0 + 1) 0 = Inr sji \<and>
             GivensRightRotation_spec ?I 0 (0 + 1) sii sji =
               Inr \<lparr>rows_m = 2, buffer_m = [- 3 / 5, - 4 / 5, 4 / 5, - 3 / 5]\<rparr> \<and>
             GivensLeftRotation_spec ?S1 0 (0 + 1) sii sji = Inr \<lparr>rows_m = 2, buffer_m = [9, 0, 0, 16]\<rparr>"
        using r3 r4 e(3,4) by (intro exI[of _ "- 27 / 5"] exI[of _ "36 / 5"]) simp
      then show ?thesis using c(2) by simp
    qed
  qed
  with r1 r2 r3 r4 show ?thesis by blast
qed

text \<open>
  C3, as it is worded (the right rotation applied to both \<open>VT\<close> and \<open>S\<close>, the left rotation
  to both \<open>U\<close> and \<open>S\<close>), fails on \<open>[[12,7],[0,12]]\<close>: one sweep of the code returns
  \<open>U = [[-3/5,-4/5],[4/5,-3/5]]\<close>, \<open>S = [[9,0],[0,16]]\<close>, \<open>VT = [[-4/5,3/5],[-3/5,-4/5]]\<close>
  (and \<open>U * S * VT\<close> is the input), whereas the body as worded gives the transposes of this
  \<open>U\<close> and this \<open>VT\<close>.
\<close>

theorem sweep_step_as_worded_counterexample:
  "BidiagonalAlgorithmQR sgn GetSubmatrix_spec (RoundZeroes_spec (1 / 10000000000))
     GivensLeftRotation_spec GivensRightRotation_spec \<lparr>rows_m = 2, buffer_m = [12, 7, 0, 12]\<rparr> 1 =
   Inr \<lparr>basis_U = \<lparr>rows_m = 2, buffer_m = [- 3 / 5, - 4 / 5, 4 / 5, - 3 / 5]\<rparr>,
        basis_D = \<lparr>rows_m = 2, buffer_m = [9, 0, 0, 16]\<rparr>,
        basis_VT = \<lparr>rows_m = 2, buffer_m = [- 4 / 5, 3 / 5, - 3 / 5, - 4 / 5]\<rparr>\<rparr> \<and>
   sweep_step GivensLeftRotation_spec GivensRightRotation_spec 256 0
     (\<lparr>rows_m = 2, buffer_m = [1, 0, 0, 1]\<rparr>,
      \<lparr>rows_m = 2, buffer_m = [12, 7, 0, 12]\<rparr>,
      \<lparr>rows_m = 2, buffer_m = [1, 0, 0, 1]\<rparr>) =
   Inr (\<lparr>rows_m = 2, buffer_m = [- 3 / 5, - 4 / 5, 4 / 5, - 3 / 5]\<rparr>,
        \<lparr>rows_m = 2, buffer_m = [9, 0, 0, 16]\<rparr>,
        \<lparr>rows_m = 2, buffer_m = [- 4 / 5, 3 / 5, - 3 / 5, - 4 / 5]\<rparr>) \<and>
   sweep_step_as_worded GivensLeftRotation_spec GivensRightRotation_spec 256 0
     (\<lparr>rows_m = 2, buffer_m = [1, 0, 0, 1]\<rparr>,
      \<lparr>rows_m = 2, buffer_m = [12, 7, 0, 12]\<rparr>,
      \<lparr>rows_m = 2, buffer_m = [1, 0, 0, 1]\<rparr>) =
   Inr (\<lparr>rows_m = 2, buffer_m = [- 3 / 5, 4 / 5, - 4 / 5, - 3 / 5]\<rparr>,
        \<lparr>rows_m = 2, buffer_m = [9, 0, 0, 16]\<rparr>,
        \<lparr>rows_m = 2, buffer_m = [- 4 / 5, - 3 / 5, 3 / 5, - 4 / 5]\<rparr>) \<and>
   sweep_step GivensLeftRotation_spec GivensRightRotation_spec 256 0
     (\<lparr>rows_m = 2, buffer_m = [1, 0, 0, 1]\<rparr>,
      \<lparr>rows_m = 2, buffer_m = [12, 7, 0, 12]\<rparr>,
      \<lparr>rows_m = 2, buffer_m = [1, 0, 0, 1]\<rparr>) \<noteq>
   sweep_step_as_worded GivensLeftRotation_spec GivensRightRotation_spec 256 0
     (\<lparr>rows_m = 2, buffer_m = [1, 0, 0, 1]\<rparr>,
      \<lparr>rows_m = 2, buffer_m = [12, 7, 0, 12]\<rparr>,
      \<lparr>rows_m = 2, buffer_m = [1, 0, 0, 1]\<rparr>)"
  using BidiagonalAlgorithmQR_example sweep_step_example sweep_step_as_worded_example
  by simp


section \<open>Addition followed by subtraction\<close>

text \<open>
  For two well-formed matrices of the same shape no assertion of \<^verbatim>\<open>operator+\<close> and
  \<^verbatim>\<open>operator-\<close> fails and no read is out of range; the buffer of \<open>(A + B) - B\<close> holds
  \<open>(a + b) - b\<close> for the elements \<open>a\<close> of \<open>A\<close> and \<open>b\<close> of \<open>B\<close> at each index, computed by
  the addition and the subtraction of the scalar type, of which nothing is assumed here. So
  \<open>(A + B) - B == A\<close> holds exactly when \<open>(a + b) - b = a\<close> holds for each pair of elements in
  the arithmetic of the scalar type.
\<close>

lemma for_loop_elementwise:
  assumes "n \<le> length (buffer_m m)" and "n \<le> length rhs"
  shows "for_loop [0..<n]
           (\<lambda>i m. if i < length rhs
                  then Inr (m\<lparr>buffer_m := (buffer_m m)[i := f (buffer_m m ! i) (rhs ! i)]\<rparr>)
                  else Inl OutOfBoundsRead) m =
         Inr (m\<lparr>buffer_m := map (\<lambda>i. f (buffer_m m ! i) (rhs ! i)) [0..<n] @ drop n (buffer_m m)\<rparr>)"
  using assms
proof (induction n)
  case 0
  then show ?case by simp
next
  case (Suc n)
  let ?buf = "map (\<lambda>i. f (buffer_m m ! i) (rhs ! i)) [0..<n] @ drop n (buffer_m m)"
  have n: "n < length (buffer_m m)" "n < length rhs" using Suc.prems by simp_all
  have nth: "?buf ! n = buffer_m m ! n"
    using n by (simp add: nth_append)
  have d: "drop n (buffer_m m) = buffer_m m ! n # drop (Suc n) (buffer_m m)"
    using n(1) by (simp add: Cons_nth_drop_Suc)
  have upd: "?buf[n := f (buffer_m m ! n) (rhs ! n)] =
             map (\<lambda>i. f (buffer_m m ! i) (rhs ! i)) [0..<Suc n] @ drop (Suc n) (buffer_m m)"
    by (simp add: list_update_append d)
  show ?case
    using Suc.IH n nth upd by (simp add: for_loop_append)
qed

lemma operator_plus_then_minus:
  fixes A B :: "'a::{plus,minus} Matrix"
  assumes "wf_matrix A" and "wf_matrix B" and "Rows A = Rows B" and "Columns A = Columns B"
  shows "and_then (operator_plus A B) (\<lambda>S. operator_minus S B) =
           Inr (A\<lparr>buffer_m := map (\<lambda>i. buffer_m A ! i + buffer_m B ! i - buffer_m B ! i)
                                  [0..<length (buffer_m A)]\<rparr>)"
proof -
  have len: "length (buffer_m A) = length (buffer_m B)"
    using assms by (auto simp: wf_matrix_def Rows_def split: if_splits)
  let ?S = "A\<lparr>buffer_m := map (\<lambda>i. buffer_m A ! i + buffer_m B ! i) [0..<length (buffer_m A)]\<rparr>"
  have loop1: "for_loop [0..<length (buffer_m A)]
           (\<lambda>i m. if i < length (buffer_m B)
                  then Inr (m\<lparr>buffer_m := (buffer_m m)[i := buffer_m m ! i + buffer_m B ! i]\<rparr>)
                  else Inl OutOfBoundsRead) A =
         Inr (A\<lparr>buffer_m := map (\<lambda>i. buffer_m A ! i + buffer_m B ! i) [0..<length (buffer_m A)] @
                                 drop (length (buffer_m A)) (buffer_m A)\<rparr>)"
    by (rule for_loop_elementwise) (simp_all add: len)
  have plus: "operator_plus A B = Inr ?S"
    using assms(3,4) loop1 by (simp add: operator_plus_def operator_plus_assign_def)
  have "Rows ?S = Rows A" "Columns ?S = Columns A"
    by (simp_all add: Rows_def Columns_def)
  then have shape: "Rows ?S = Rows B" "Columns ?S = Columns B"
    using assms(3,4) by simp_all
  have loop2: "for_loop [0..<length (buffer_m ?S)]
           (\<lambda>i m. if i < length (buffer_m B)
                  then Inr (m\<lparr>buffer_m := (buffer_m m)[i := buffer_m m ! i - buffer_m B ! i]\<rparr>)
                  else Inl OutOfBoundsRead) ?S =
         Inr (?S\<lparr>buffer_m := map (\<lambda>i. buffer_m ?S ! i - buffer_m B ! i) [0..<length (buffer_m ?S)] @
                                 drop (length (buffer_m ?S)) (buffer_m ?S)\<rparr>)"
    by (rule for_loop_elementwise) (simp_all add: len)
  have "operator_minus ?S B =
        Inr (A\<lparr>buffer_m := map (\<lambda>i. buffer_m A ! i + buffer_m B ! i - buffer_m B ! i)
                                  [0..<length (buffer_m A)]\<rparr>)"
    using shape loop2 by (simp add: operator_minus_def operator_minus_assign_def)
  then show ?thesis using plus by simp
qed

lemma operator_plus_then_minus_eq:
  fixes A B :: "'a::{plus,minus} Matrix"
  assumes "wf_matrix A" and "wf_matrix B" and "Rows A = Rows B" and "Columns A = Columns B"
  shows "\<exists>D. and_then (operator_plus A B) (\<lambda>S. operator_minus S B) = Inr D \<and>
             (operator_eq D A \<longleftrightarrow>
              (\<forall>i < length (buffer_m A). buffer_m A ! i + buffer_m B ! i - buffer_m B ! i = buffer_m A ! i))"
proof -
  let ?D = "A\<lparr>buffer_m := map (\<lambda>i. buffer_m A ! i + buffer_m B ! i - buffer_m B ! i)
                                  [0..<length (buffer_m A)]\<rparr>"
  have r: "and_then (operator_plus A B) (\<lambda>S. operator_minus S B) = Inr ?D"
    by (rule operator_plus_then_minus[OF assms])
  have "buffer_m ?D = buffer_m A \<longleftrightarrow>
        (\<forall>i < length (buffer_m A). buffer_m A ! i + buffer_m B ! i - buffer_m B ! i = buffer_m A ! i)"
    unfolding list_eq_iff_nth_eq by simp
  then have e: "operator_eq ?D A \<longleftrightarrow>
        (\<forall>i < length (buffer_m A). buffer_m A ! i + buffer_m B ! i - buffer_m B ! i = buffer_m A ! i)"
    unfolding operator_eq_def .
  show ?thesis by (rule exI[of _ ?D]) (rule conjI[OF r e])
qed

end
